theory Spec2Isabelle
  imports Main "HOL-Library.AList"
begin

section \<open>Skeleton tree of a collection built from an OpenAPI specification\<close>

text \<open>
  The development embeds \<^verbatim>\<open>libV2/helpers/collection/generateSkeletionTreeFromOpenAPI.js\<close>:
  the two folder strategies (\<^verbatim>\<open>_generateTreeFromPathsV2\<close>, \<^verbatim>\<open>_generateTreeFromTags\<close>), the
  webhook pass (\<^verbatim>\<open>_generateWebhookEndpoints\<close>) and the exported dispatcher.  The JavaScript
  mutates one \<^verbatim>\<open>Graph\<close> object; here the graph is passed explicitly and returned updated.
\<close>

subsection \<open>Values and input data\<close>

text \<open>
  A property value that the code copies into a node's \<^verbatim>\<open>meta\<close>: a string, \<^verbatim>\<open>undefined\<close>,
  or (only when a plain object is read at a key it does not own) the member of that name
  inherited from \<^verbatim>\<open>Object.prototype\<close>.
\<close>

datatype jsval = Undefined | Str string | Inherited string

text \<open>
  An operation record, as far as the code reads it: the truthiness of \<^verbatim>\<open>data.deprecated\<close>
  and the array \<^verbatim>\<open>data.tags\<close> when present.  Every value stored under a key of a path item
  or of a webhook item is read through this view; a value that is not an operation (a
  \<^verbatim>\<open>parameters\<close> array, a \<^verbatim>\<open>summary\<close> string) has neither property.  \<^verbatim>\<open>null\<close> values, on
  which the property access throws, are outside the input type.
\<close>

record operation =
  deprecated :: bool
  op_tags :: "string list option"

record tag_descriptor =
  name :: string
  description :: jsval

text \<open>
  JavaScript objects with string keys are association lists in the order in which
  \<^verbatim>\<open>Object.keys\<close> and \<^verbatim>\<open>_.forEach\<close> enumerate them; their keys are distinct.  The fields of
  the specification that the code does not read are the record's extension.
\<close>

type_synonym path_item = "(string \<times> operation) list"

record openapi =
  paths :: "(string \<times> path_item) list"
  tags :: "tag_descriptor list"
  webhooks :: "(string \<times> path_item) list"

datatype error = Error string

subsection \<open>The node and edge store\<close>

text \<open>
  Modelled from the spec: the node and edge store is the \<^verbatim>\<open>Graph\<close> class of the external
  package \<^verbatim>\<open>graphlib\<close>, which is not among the sources.  Section 4.1 of the specification
  gives its contract: \<^verbatim>\<open>setNode\<close> creates a node or overwrites its record, \<^verbatim>\<open>setEdge\<close>
  creates an edge and is a no-op on an existing pair, both enumerate in insertion order.
  As in the package, an edge whose end points are missing creates them with no record.
\<close>

record node_label =
  ntype :: string
  data :: "(string \<times> jsval) list"
  meta :: "(string \<times> jsval) list"

record graph =
  nodes :: "(string \<times> node_label option) list"
  edges :: "(string \<times> string) list"

definition new_Graph :: graph where
  "new_Graph = \<lparr>nodes = [], edges = []\<rparr>"

definition hasNode :: "graph \<Rightarrow> string \<Rightarrow> bool" where
  "hasNode g v = (v \<in> set (map fst (nodes g)))"

definition hasEdge :: "graph \<Rightarrow> string \<Rightarrow> string \<Rightarrow> bool" where
  "hasEdge g v w = ((v, w) \<in> set (edges g))"

definition node :: "graph \<Rightarrow> string \<Rightarrow> node_label option" where
  "node g v = (case map_of (nodes g) v of Some l \<Rightarrow> l | None \<Rightarrow> None)"

text \<open>\<^verbatim>\<open>setNode(v, value)\<close>: an existing node keeps its position and takes the new record.\<close>

definition setNode :: "graph \<Rightarrow> string \<Rightarrow> node_label \<Rightarrow> graph" where
  "setNode g v val = g\<lparr>nodes := AList.update v (Some val) (nodes g)\<rparr>"

text \<open>\<^verbatim>\<open>setNode(v)\<close> with no record, as \<^verbatim>\<open>setEdge\<close> calls it for both end points.\<close>

definition setNode_default :: "graph \<Rightarrow> string \<Rightarrow> graph" where
  "setNode_default g v = (if hasNode g v then g else g\<lparr>nodes := nodes g @ [(v, None)]\<rparr>)"

definition setEdge :: "graph \<Rightarrow> string \<Rightarrow> string \<Rightarrow> graph" where
  "setEdge g v w =
     (if hasEdge g v w then g
      else (let g' = setNode_default (setNode_default g v) w
            in g'\<lparr>edges := edges g' @ [(v, w)]\<rparr>))"

subsection \<open>Strings and plain objects\<close>

text \<open>\<^verbatim>\<open>s.split('/')\<close>, \<^verbatim>\<open>_.compact\<close> and \<^verbatim>\<open>xs.join('/')\<close>.\<close>

fun split :: "char \<Rightarrow> string \<Rightarrow> string list" where
  "split c [] = [Nil]"
| "split c (x # xs) =
     (if x = c then [] # split c xs
      else (case split c xs of [] \<Rightarrow> [x # Nil] | w # ws \<Rightarrow> (x # w) # ws))"

definition compact :: "string list \<Rightarrow> string list" where
  "compact xs = filter (\<lambda>s. s \<noteq> []) xs"

fun join :: "string \<Rightarrow> string list \<Rightarrow> string" where
  "join sep [] = []"
| "join sep [x] = x"
| "join sep (x # y # ys) = x @ sep @ join sep (y # ys)"

text \<open>
  The names every plain object inherits from \<^verbatim>\<open>Object.prototype\<close>.  Reading a plain object
  at one of them yields a truthy value even though the object does not own the key.
\<close>

definition object_prototype_members :: "string list" where
  "object_prototype_members =
     [''constructor'', ''__defineGetter__'', ''__defineSetter__'', ''hasOwnProperty'',
      ''__lookupGetter__'', ''__lookupSetter__'', ''isPrototypeOf'', ''propertyIsEnumerable'',
      ''toString'', ''valueOf'', ''__proto__'', ''toLocaleString'']"

definition http_methods :: "string list" where
  "http_methods =
     [''get'', ''head'', ''post'', ''put'', ''patch'', ''delete'', ''connect'', ''options'',
      ''trace'']"

text \<open>The truthiness of \<^verbatim>\<open>ALLOWED_HTTP_METHODS[method]\<close>.\<close>

definition ALLOWED_HTTP_METHODS :: "string \<Rightarrow> bool" where
  "ALLOWED_HTTP_METHODS method =
     (method \<in> set http_methods \<or> method \<in> set object_prototype_members)"

text \<open>
  Key order of a plain object: keys that are array indices (canonical decimal numerals
  below \<open>2^32 - 1\<close>) come first in ascending order, all other keys follow in the order of
  their creation.
\<close>

definition digit_value :: "string \<Rightarrow> int" where
  "digit_value k = foldl (\<lambda>n c. 10 * n + (of_char c - 48)) 0 k"

definition is_array_index :: "string \<Rightarrow> bool" where
  "is_array_index k =
     (k \<noteq> [] \<and> list_all (\<lambda>c. c \<in> set ''0123456789'') k \<and>
      (k = ''0'' \<or> hd k \<noteq> CHR ''0'') \<and> length k \<le> 10 \<and> digit_value k < 4294967295)"

fun insert_index :: "string \<Rightarrow> 'v \<Rightarrow> (string \<times> 'v) list \<Rightarrow> (string \<times> 'v) list" where
  "insert_index k v [] = [(k, v)]"
| "insert_index k v (p # ps) =
     (if is_array_index (fst p) \<and> digit_value (fst p) < digit_value k
      then p # insert_index k v ps
      else (k, v) # p # ps)"

text \<open>
  \<^verbatim>\<open>obj[k] = v\<close> on a plain object whose values are strings or \<^verbatim>\<open>undefined\<close>: assigning to
  \<^verbatim>\<open>__proto__\<close> runs the inherited setter, which ignores such a value.
\<close>

definition obj_set :: "(string \<times> jsval) list \<Rightarrow> string \<Rightarrow> jsval \<Rightarrow> (string \<times> jsval) list" where
  "obj_set obj k v =
     (if k = ''__proto__'' then obj
      else if k \<in> set (map fst obj) then AList.update k v obj
      else if is_array_index k then insert_index k v obj
      else obj @ [(k, v)])"

text \<open>\<^verbatim>\<open>obj[k]\<close> on such an object.\<close>

definition obj_get :: "(string \<times> jsval) list \<Rightarrow> string \<Rightarrow> jsval" where
  "obj_get obj k =
     (case map_of obj k of
        Some v \<Rightarrow> v
      | None \<Rightarrow> if k \<in> set object_prototype_members then Inherited k else Undefined)"

subsection \<open>Node records\<close>

definition root_label :: node_label where
  "root_label = \<lparr>ntype = ''collection'', data = [], meta = []\<rparr>"

definition path_folder_label :: "string \<Rightarrow> string \<Rightarrow> node_label" where
  "path_folder_label path pathIdentifier =
     \<lparr>ntype = ''folder'', data = [],
      meta = [(''name'', Str path), (''path'', Str path),
              (''pathIdentifier'', Str pathIdentifier)]\<rparr>"

definition path_request_label :: "string \<Rightarrow> string \<Rightarrow> string \<Rightarrow> node_label" where
  "path_request_label completePath method pathIdentifier =
     \<lparr>ntype = ''request'', data = [],
      meta = [(''path'', Str completePath), (''method'', Str method),
              (''pathIdentifier'', Str pathIdentifier)]\<rparr>"

definition tag_folder_label :: "string \<Rightarrow> string \<Rightarrow> jsval \<Rightarrow> node_label" where
  "tag_folder_label path tag desc =
     \<lparr>ntype = ''folder'', data = [],
      meta = [(''path'', Str path), (''name'', Str tag), (''description'', desc)]\<rparr>"

definition tag_request_label :: "string \<Rightarrow> string \<Rightarrow> string \<Rightarrow> node_label" where
  "tag_request_label tag path method =
     \<lparr>ntype = ''request'', data = [],
      meta = [(''tag'', Str tag), (''path'', Str path), (''method'', Str method)]\<rparr>"

definition untagged_request_label :: "string \<Rightarrow> string \<Rightarrow> node_label" where
  "untagged_request_label path method =
     \<lparr>ntype = ''request'', data = [],
      meta = [(''path'', Str path), (''method'', Str method)]\<rparr>"

definition webhook_folder_label :: node_label where
  "webhook_folder_label =
     \<lparr>ntype = ''webhook~folder'', data = [],
      meta = [(''path'', Str ''webhook~folder''), (''name'', Str ''webhook~folder''),
              (''description'', Str '''')]\<rparr>"

definition webhook_request_label :: "string \<Rightarrow> string \<Rightarrow> node_label" where
  "webhook_request_label path method =
     \<lparr>ntype = ''webhook~request'', data = [],
      meta = [(''path'', Str path), (''method'', Str method)]\<rparr>"

subsection \<open>Node identifiers\<close>

definition root_id :: string where
  "root_id = ''root:collection''"

definition PATH_WEBHOOK :: string where
  "PATH_WEBHOOK = ''path~webhook''"

definition path_folder_id :: "string \<Rightarrow> string" where
  "path_folder_id pathIdentifier = ''path:folder:'' @ pathIdentifier"

definition path_request_id :: "string \<Rightarrow> string \<Rightarrow> string" where
  "path_request_id pathIdentifier method =
     ''path:request:'' @ pathIdentifier @ '':'' @ method"

definition tag_folder_id :: "string \<Rightarrow> string" where
  "tag_folder_id tag = ''path:'' @ tag"

definition tag_request_id :: "string \<Rightarrow> string \<Rightarrow> string \<Rightarrow> string" where
  "tag_request_id tag path method = ''path:'' @ tag @ '':'' @ path @ '':'' @ method"

definition untagged_request_id :: "string \<Rightarrow> string \<Rightarrow> string" where
  "untagged_request_id path method = ''path:'' @ path @ '':'' @ method"

definition webhook_folder_id :: string where
  "webhook_folder_id = PATH_WEBHOOK @ '':folder''"

definition webhook_request_id :: "string \<Rightarrow> string \<Rightarrow> string" where
  "webhook_request_id path method = PATH_WEBHOOK @ '':'' @ path @ '':'' @ method"

subsection \<open>The path strategy\<close>

definition pathSplit :: "string \<Rightarrow> string list" where
  "pathSplit completePath =
     (if completePath = ''/'' then [completePath] else compact (split CHR ''/'' completePath))"

text \<open>
  Lines 74--112, the callback over the path item of a path with one segment: the folder of
  the segment is created on demand under the root, then the request is written and linked.
\<close>

definition single_segment_method ::
  "bool \<Rightarrow> string \<Rightarrow> string list \<Rightarrow> graph \<Rightarrow> string \<times> operation \<Rightarrow> graph" where
  "single_segment_method includeDeprecated completePath segs tree entry =
     (let method = fst entry; dat = snd entry
      in if \<not> ALLOWED_HTTP_METHODS method then tree
         else if \<not> includeDeprecated \<and> deprecated dat then tree
         else
           (let tree1 =
                  (if \<not> hasNode tree (path_folder_id (segs ! 0))
                   then setEdge
                          (setNode tree (path_folder_id (segs ! 0))
                             (path_folder_label (segs ! 0) (segs ! 0)))
                          root_id (path_folder_id (segs ! 0))
                   else tree);
                tree2 = setNode tree1 (path_request_id (segs ! 0) method)
                          (path_request_label completePath method (segs ! 0))
            in setEdge tree2 (path_folder_id (segs ! 0)) (path_request_id (segs ! 0) method)))"

text \<open>
  Lines 123--169, the same callback at the last segment of a longer path: the folder of the
  complete path is created on demand under the folder of the previous path identifier.
\<close>

definition last_segment_method ::
  "bool \<Rightarrow> string \<Rightarrow> string list \<Rightarrow> nat \<Rightarrow> graph \<Rightarrow> string \<times> operation \<Rightarrow> graph" where
  "last_segment_method includeDeprecated completePath segs index tree entry =
     (let method = fst entry; dat = snd entry;
          path = segs ! index;
          previousPathIdentified = join ''/'' (take index segs);
          pathIdentifier = join ''/'' (take (index + 1) segs)
      in if \<not> ALLOWED_HTTP_METHODS method then tree
         else if \<not> includeDeprecated \<and> deprecated dat then tree
         else
           (let tree1 =
                  (if \<not> hasNode tree (path_folder_id pathIdentifier)
                   then setEdge
                          (setNode tree (path_folder_id pathIdentifier)
                             (path_folder_label path pathIdentifier))
                          (if index = 0 then root_id else path_folder_id previousPathIdentified)
                          (path_folder_id pathIdentifier)
                   else tree);
                tree2 = setNode tree1 (path_request_id pathIdentifier method)
                          (path_request_label completePath method pathIdentifier)
            in setEdge tree2 (path_folder_id pathIdentifier)
                 (path_request_id pathIdentifier method)))"

text \<open>Lines 172--191: an inner segment gets its folder and the edge from its parent.\<close>

definition inner_segment :: "string list \<Rightarrow> graph \<Rightarrow> nat \<Rightarrow> graph" where
  "inner_segment segs tree index =
     (let path = segs ! index;
          previousPathIdentified = join ''/'' (take index segs);
          pathIdentifier = join ''/'' (take (index + 1) segs);
          fromNode = (if index = 0 then root_id else path_folder_id previousPathIdentified);
          toNode = path_folder_id pathIdentifier;
          tree1 = (if \<not> hasNode tree toNode
                   then setNode tree toNode (path_folder_label path pathIdentifier)
                   else tree)
      in if \<not> hasEdge tree1 fromNode toNode then setEdge tree1 fromNode toNode else tree1)"

text \<open>\<^verbatim>\<open>openapi.paths[completePath]\<close>; \<^verbatim>\<open>_.forEach\<close> over a missing value visits nothing.\<close>

definition methods_of :: "(string \<times> path_item) list \<Rightarrow> string \<Rightarrow> path_item" where
  "methods_of ps completePath = (case map_of ps completePath of Some ms \<Rightarrow> ms | None \<Rightarrow> [])"

definition segment_step ::
  "bool \<Rightarrow> (string \<times> path_item) list \<Rightarrow> string \<Rightarrow> string list \<Rightarrow> graph \<Rightarrow> nat \<Rightarrow> graph" where
  "segment_step includeDeprecated ps completePath segs tree index =
     (if index + 1 = length segs
      then foldl (last_segment_method includeDeprecated completePath segs index) tree
             (methods_of ps completePath)
      else inner_segment segs tree index)"

text \<open>The callback over the declared paths, lines 59--194.\<close>

definition path_step :: "bool \<Rightarrow> (string \<times> path_item) list \<Rightarrow> graph \<Rightarrow> string \<Rightarrow> graph" where
  "path_step includeDeprecated ps tree completePath =
     (let segs = pathSplit completePath
      in if length segs = 1
         then foldl (single_segment_method includeDeprecated completePath segs) tree
                (methods_of ps completePath)
         else foldl (segment_step includeDeprecated ps completePath segs) tree
                [0..<length segs])"

definition root_tree :: graph where
  "root_tree = setNode new_Graph root_id root_label"

definition generateTreeFromPathsV2 :: "'a openapi_scheme \<Rightarrow> bool \<Rightarrow> graph" where
  "generateTreeFromPathsV2 spec includeDeprecated =
     (let tree = root_tree; keys = map fst (paths spec)
      in if keys = [] then tree
         else foldl (path_step includeDeprecated (paths spec)) tree keys)"

subsection \<open>The tag strategy\<close>

definition tagDescMap :: "tag_descriptor list \<Rightarrow> (string \<times> jsval) list" where
  "tagDescMap ts = foldl (\<lambda>acc dat. obj_set acc (name dat) (description dat)) [] ts"

text \<open>Lines 372--391: one folder per key of the tag map.\<close>

definition declared_tag_step :: "(string \<times> jsval) list \<Rightarrow> graph \<Rightarrow> string \<times> jsval \<Rightarrow> graph" where
  "declared_tag_step tdm tree entry =
     (let tag = fst entry
      in if hasNode tree (tag_folder_id tag) then tree
         else setEdge
                (setNode tree (tag_folder_id tag) (tag_folder_label '''' tag (obj_get tdm tag)))
                root_id (tag_folder_id tag))"

text \<open>Lines 412--439: the request under one of its tags, with the safeguard folder.\<close>

definition tag_request_step ::
  "(string \<times> jsval) list \<Rightarrow> string \<Rightarrow> string \<Rightarrow> graph \<Rightarrow> string \<Rightarrow> graph" where
  "tag_request_step tdm path method tree tag =
     (let tree1 = setNode tree (tag_request_id tag path method)
                    (tag_request_label tag path method);
          tree2 = (if \<not> hasNode tree1 (tag_folder_id tag)
                   then setEdge
                          (setNode tree1 (tag_folder_id tag)
                             (tag_folder_label path tag (obj_get tdm tag)))
                          root_id (tag_folder_id tag)
                   else tree1)
      in setEdge tree2 (tag_folder_id tag) (tag_request_id tag path method))"

definition untagged_request :: "string \<Rightarrow> string \<Rightarrow> graph \<Rightarrow> graph" where
  "untagged_request path method tree =
     setEdge (setNode tree (untagged_request_id path method)
                (untagged_request_label path method))
       root_id (untagged_request_id path method)"

definition tags_method_step ::
  "bool \<Rightarrow> (string \<times> jsval) list \<Rightarrow> string \<Rightarrow> graph \<Rightarrow> string \<times> operation \<Rightarrow> graph" where
  "tags_method_step includeDeprecated tdm path tree entry =
     (let method = fst entry; dat = snd entry
      in if \<not> ALLOWED_HTTP_METHODS method then tree
         else if \<not> includeDeprecated \<and> deprecated dat then tree
         else (case op_tags dat of
                 Some ts \<Rightarrow>
                   if length ts > 0 then foldl (tag_request_step tdm path method) tree ts
                   else untagged_request path method tree
               | None \<Rightarrow> untagged_request path method tree))"

definition tags_path_step ::
  "bool \<Rightarrow> (string \<times> jsval) list \<Rightarrow> graph \<Rightarrow> string \<times> path_item \<Rightarrow> graph" where
  "tags_path_step includeDeprecated tdm tree entry =
     foldl (tags_method_step includeDeprecated tdm (fst entry)) tree (snd entry)"

definition declared_tag_folders :: "(string \<times> jsval) list \<Rightarrow> graph" where
  "declared_tag_folders tdm = foldl (declared_tag_step tdm) root_tree tdm"

definition generateTreeFromTags :: "'a openapi_scheme \<Rightarrow> bool \<Rightarrow> graph" where
  "generateTreeFromTags spec includeDeprecated =
     (let tdm = tagDescMap (tags spec)
      in foldl (tags_path_step includeDeprecated tdm) (declared_tag_folders tdm) (paths spec))"

subsection \<open>Webhooks\<close>

definition webhook_method_step :: "bool \<Rightarrow> string \<Rightarrow> graph \<Rightarrow> string \<times> operation \<Rightarrow> graph" where
  "webhook_method_step includeDeprecated path tree entry =
     (let method = fst entry; dat = snd entry
      in if \<not> includeDeprecated \<and> deprecated dat then tree
         else setEdge
                (setNode tree (webhook_request_id path method)
                   (webhook_request_label path method))
                webhook_folder_id (webhook_request_id path method))"

definition webhook_step :: "bool \<Rightarrow> graph \<Rightarrow> string \<times> path_item \<Rightarrow> graph" where
  "webhook_step includeDeprecated tree entry =
     foldl (webhook_method_step includeDeprecated (fst entry)) tree (snd entry)"

definition generateWebhookEndpoints :: "'a openapi_scheme \<Rightarrow> graph \<Rightarrow> bool \<Rightarrow> graph" where
  "generateWebhookEndpoints spec tree includeDeprecated =
     (let tree1 = (if webhooks spec \<noteq> []
                   then setEdge (setNode tree webhook_folder_id webhook_folder_label)
                          root_id webhook_folder_id
                   else tree)
      in foldl (webhook_step includeDeprecated) tree1 (webhooks spec))"

subsection \<open>The calls made to the store\<close>

text \<open>
  The same functions once more, each keeping beside the graph the list of the \<^verbatim>\<open>setNode\<close> and
  \<^verbatim>\<open>setEdge\<close> calls it has made, in the order of the calls.  A test (\<^verbatim>\<open>hasNode\<close>,
  \<^verbatim>\<open>hasEdge\<close>) reads the graph and is not recorded.
\<close>

datatype call = SetNode string node_label | SetEdge string string

definition setNode_log :: "graph \<times> call list \<Rightarrow> string \<Rightarrow> node_label \<Rightarrow> graph \<times> call list" where
  "setNode_log tree v val = (setNode (fst tree) v val, snd tree @ [SetNode v val])"

definition setEdge_log :: "graph \<times> call list \<Rightarrow> string \<Rightarrow> string \<Rightarrow> graph \<times> call list" where
  "setEdge_log tree v w = (setEdge (fst tree) v w, snd tree @ [SetEdge v w])"

definition single_segment_method_log ::
  "bool \<Rightarrow> string \<Rightarrow> string list \<Rightarrow> graph \<times> call list \<Rightarrow> string \<times> operation \<Rightarrow>
   graph \<times> call list" where
  "single_segment_method_log includeDeprecated completePath segs tree entry =
     (let method = fst entry; dat = snd entry
      in if \<not> ALLOWED_HTTP_METHODS method then tree
         else if \<not> includeDeprecated \<and> deprecated dat then tree
         else
           (let tree1 =
                  (if \<not> hasNode (fst tree) (path_folder_id (segs ! 0))
                   then setEdge_log
                          (setNode_log tree (path_folder_id (segs ! 0))
                             (path_folder_label (segs ! 0) (segs ! 0)))
                          root_id (path_folder_id (segs ! 0))
                   else tree);
                tree2 = setNode_log tree1 (path_request_id (segs ! 0) method)
                          (path_request_label completePath method (segs ! 0))
            in setEdge_log tree2 (path_folder_id (segs ! 0))
                 (path_request_id (segs ! 0) method)))"

definition last_segment_method_log ::
  "bool \<Rightarrow> string \<Rightarrow> string list \<Rightarrow> nat \<Rightarrow> graph \<times> call list \<Rightarrow> string \<times> operation \<Rightarrow>
   graph \<times> call list" where
  "last_segment_method_log includeDeprecated completePath segs index tree entry =
     (let method = fst entry; dat = snd entry;
          path = segs ! index;
          previousPathIdentified = join ''/'' (take index segs);
          pathIdentifier = join ''/'' (take (index + 1) segs)
      in if \<not> ALLOWED_HTTP_METHODS method then tree
         else if \<not> includeDeprecated \<and> deprecated dat then tree
         else
           (let tree1 =
                  (if \<not> hasNode (fst tree) (path_folder_id pathIdentifier)
                   then setEdge_log
                          (setNode_log tree (path_folder_id pathIdentifier)
                             (path_folder_label path pathIdentifier))
                          (if index = 0 then root_id else path_folder_id previousPathIdentified)
                          (path_folder_id pathIdentifier)
                   else tree);
                tree2 = setNode_log tree1 (path_request_id pathIdentifier method)
                          (path_request_label completePath method pathIdentifier)
            in setEdge_log tree2 (path_folder_id pathIdentifier)
                 (path_request_id pathIdentifier method)))"

definition inner_segment_log :: "string list \<Rightarrow> graph \<times> call list \<Rightarrow> nat \<Rightarrow> graph \<times> call list" where
  "inner_segment_log segs tree index =
     (let path = segs ! index;
          previousPathIdentified = join ''/'' (take index segs);
          pathIdentifier = join ''/'' (take (index + 1) segs);
          fromNode = (if index = 0 then root_id else path_folder_id previousPathIdentified);
          toNode = path_folder_id pathIdentifier;
          tree1 = (if \<not> hasNode (fst tree) toNode
                   then setNode_log tree toNode (path_folder_label path pathIdentifier)
                   else tree)
      in if \<not> hasEdge (fst tree1) fromNode toNode then setEdge_log tree1 fromNode toNode
         else tree1)"

definition segment_step_log ::
  "bool \<Rightarrow> (string \<times> path_item) list \<Rightarrow> string \<Rightarrow> string list \<Rightarrow> graph \<times> call list \<Rightarrow> nat \<Rightarrow>
   graph \<times> call list" where
  "segment_step_log includeDeprecated ps completePath segs tree index =
     (if index + 1 = length segs
      then foldl (last_segment_method_log includeDeprecated completePath segs index) tree
             (methods_of ps completePath)
      else inner_segment_log segs tree index)"

definition path_step_log ::
  "bool \<Rightarrow> (string \<times> path_item) list \<Rightarrow> graph \<times> call list \<Rightarrow> string \<Rightarrow> graph \<times> call list" where
  "path_step_log includeDeprecated ps tree completePath =
     (let segs = pathSplit completePath
      in if length segs = 1
         then foldl (single_segment_method_log includeDeprecated completePath segs) tree
                (methods_of ps completePath)
         else foldl (segment_step_log includeDeprecated ps completePath segs) tree
                [0..<length segs])"

definition root_tree_log :: "graph \<times> call list" where
  "root_tree_log = setNode_log (new_Graph, []) root_id root_label"

definition generateTreeFromPathsV2_log :: "'a openapi_scheme \<Rightarrow> bool \<Rightarrow> graph \<times> call list" where
  "generateTreeFromPathsV2_log spec includeDeprecated =
     (let tree = root_tree_log; keys = map fst (paths spec)
      in if keys = [] then tree
         else foldl (path_step_log includeDeprecated (paths spec)) tree keys)"

definition declared_tag_step_log ::
  "(string \<times> jsval) list \<Rightarrow> graph \<times> call list \<Rightarrow> string \<times> jsval \<Rightarrow> graph \<times> call list" where
  "declared_tag_step_log tdm tree entry =
     (let tag = fst entry
      in if hasNode (fst tree) (tag_folder_id tag) then tree
         else setEdge_log
                (setNode_log tree (tag_folder_id tag)
                   (tag_folder_label '''' tag (obj_get tdm tag)))
                root_id (tag_folder_id tag))"

definition tag_request_step_log ::
  "(string \<times> jsval) list \<Rightarrow> string \<Rightarrow> string \<Rightarrow> graph \<times> call list \<Rightarrow> string \<Rightarrow>
   graph \<times> call list" where
  "tag_request_step_log tdm path method tree tag =
     (let tree1 = setNode_log tree (tag_request_id tag path method)
                    (tag_request_label tag path method);
          tree2 = (if \<not> hasNode (fst tree1) (tag_folder_id tag)
                   then setEdge_log
                          (setNode_log tree1 (tag_folder_id tag)
                             (tag_folder_label path tag (obj_get tdm tag)))
                          root_id (tag_folder_id tag)
                   else tree1)
      in setEdge_log tree2 (tag_folder_id tag) (tag_request_id tag path method))"

definition untagged_request_log :: "string \<Rightarrow> string \<Rightarrow> graph \<times> call list \<Rightarrow> graph \<times> call list" where
  "untagged_request_log path method tree =
     setEdge_log (setNode_log tree (untagged_request_id path method)
                    (untagged_request_label path method))
       root_id (untagged_request_id path method)"

definition tags_method_step_log ::
  "bool \<Rightarrow> (string \<times> jsval) list \<Rightarrow> string \<Rightarrow> graph \<times> call list \<Rightarrow> string \<times> operation \<Rightarrow>
   graph \<times> call list" where
  "tags_method_step_log includeDeprecated tdm path tree entry =
     (let method = fst entry; dat = snd entry
      in if \<not> ALLOWED_HTTP_METHODS method then tree
         else if \<not> includeDeprecated \<and> deprecated dat then tree
         else (case op_tags dat of
                 Some ts \<Rightarrow>
                   if length ts > 0 then foldl (tag_request_step_log tdm path method) tree ts
                   else untagged_request_log path method tree
               | None \<Rightarrow> untagged_request_log path method tree))"

definition tags_path_step_log ::
  "bool \<Rightarrow> (string \<times> jsval) list \<Rightarrow> graph \<times> call list \<Rightarrow> string \<times> path_item \<Rightarrow>
   graph \<times> call list" where
  "tags_path_step_log includeDeprecated tdm tree entry =
     foldl (tags_method_step_log includeDeprecated tdm (fst entry)) tree (snd entry)"

definition generateTreeFromTags_log :: "'a openapi_scheme \<Rightarrow> bool \<Rightarrow> graph \<times> call list" where
  "generateTreeFromTags_log spec includeDeprecated =
     (let tdm = tagDescMap (tags spec)
      in foldl (tags_path_step_log includeDeprecated tdm)
           (foldl (declared_tag_step_log tdm) root_tree_log tdm) (paths spec))"

definition webhook_method_step_log ::
  "bool \<Rightarrow> string \<Rightarrow> graph \<times> call list \<Rightarrow> string \<times> operation \<Rightarrow> graph \<times> call list" where
  "webhook_method_step_log includeDeprecated path tree entry =
     (let method = fst entry; dat = snd entry
      in if \<not> includeDeprecated \<and> deprecated dat then tree
         else setEdge_log
                (setNode_log tree (webhook_request_id path method)
                   (webhook_request_label path method))
                webhook_folder_id (webhook_request_id path method))"

definition webhook_step_log ::
  "bool \<Rightarrow> graph \<times> call list \<Rightarrow> string \<times> path_item \<Rightarrow> graph \<times> call list" where
  "webhook_step_log includeDeprecated tree entry =
     foldl (webhook_method_step_log includeDeprecated (fst entry)) tree (snd entry)"

definition generateWebhookEndpoints_log ::
  "'a openapi_scheme \<Rightarrow> graph \<times> call list \<Rightarrow> bool \<Rightarrow> graph \<times> call list" where
  "generateWebhookEndpoints_log spec tree includeDeprecated =
     (let tree1 = (if webhooks spec \<noteq> []
                   then setEdge_log (setNode_log tree webhook_folder_id webhook_folder_label)
                          root_id webhook_folder_id
                   else tree)
      in foldl (webhook_step_log includeDeprecated) tree1 (webhooks spec))"

subsection \<open>The dispatcher\<close>

record options =
  folderStrategy :: string
  includeWebhooks :: bool
  includeDeprecated :: bool

definition generateSkeletonTreeFromOpenAPI ::
  "'a openapi_scheme \<Rightarrow> 'b options_scheme \<Rightarrow> error + graph" where
  "generateSkeletonTreeFromOpenAPI spec opts =
     (case (if folderStrategy opts = ''tags''
            then Inr (generateTreeFromTags spec (includeDeprecated opts))
            else if folderStrategy opts = ''paths''
            then Inr (generateTreeFromPathsV2 spec (includeDeprecated opts))
            else Inl (Error ''generateSkeletonTreeFromOpenAPI~folderStrategy not valid''))
      of Inl e \<Rightarrow> Inl e
       | Inr skeletonTree \<Rightarrow>
           Inr (if includeWebhooks opts
                then generateWebhookEndpoints spec skeletonTree (includeDeprecated opts)
                else skeletonTree))"

text \<open>The dispatcher once more, with the calls.\<close>

definition generateSkeletonTreeFromOpenAPI_log ::
  "'a openapi_scheme \<Rightarrow> 'b options_scheme \<Rightarrow> error + graph \<times> call list" where
  "generateSkeletonTreeFromOpenAPI_log spec opts =
     (case (if folderStrategy opts = ''tags''
            then Inr (generateTreeFromTags_log spec (includeDeprecated opts))
            else if folderStrategy opts = ''paths''
            then Inr (generateTreeFromPathsV2_log spec (includeDeprecated opts))
            else Inl (Error ''generateSkeletonTreeFromOpenAPI~folderStrategy not valid''))
      of Inl e \<Rightarrow> Inl e
       | Inr skeletonTree \<Rightarrow>
           Inr (if includeWebhooks opts
                then generateWebhookEndpoints_log spec skeletonTree (includeDeprecated opts)
                else skeletonTree))"

subsection \<open>Notions used in the statements\<close>

text \<open>
  The two tests at the head of the callbacks over a path item, taken together: an entry is
  skipped when its key is not an allowed method, or when its operation is deprecated and
  deprecated operations are not included.
\<close>

definition skipped :: "bool \<Rightarrow> string \<times> operation \<Rightarrow> bool" where
  "skipped inc entry =
     (\<not> ALLOWED_HTTP_METHODS (fst entry) \<or> (\<not> inc \<and> deprecated (snd entry)))"

definition node_ids :: "graph \<Rightarrow> string list" where
  "node_ids g = map fst (nodes g)"

text \<open>Every node carries a record, every edge joins two nodes, nothing is stored twice.\<close>

definition labelled :: "graph \<Rightarrow> bool" where
  "labelled g = list_all (\<lambda>p. snd p \<noteq> None) (nodes g)"

definition closed_edges :: "graph \<Rightarrow> bool" where
  "closed_edges g = list_all (\<lambda>e. hasNode g (fst e) \<and> hasNode g (snd e)) (edges g)"

definition well_formed :: "graph \<Rightarrow> bool" where
  "well_formed g =
     (distinct (node_ids g) \<and> distinct (edges g) \<and> closed_edges g \<and> labelled g \<and>
      hasNode g root_id)"

text \<open>The later tree has every node and every edge of the earlier one.\<close>

definition extends :: "graph \<Rightarrow> graph \<Rightarrow> bool" where
  "extends g g' = (set (node_ids g) \<subseteq> set (node_ids g') \<and> set (edges g) \<subseteq> set (edges g'))"

text \<open>
  The later tree lists the nodes and the edges of the earlier one first, in the same order,
  and whatever is new after them.
\<close>

definition grows :: "graph \<Rightarrow> graph \<Rightarrow> bool" where
  "grows g g' =
     (take (length (nodes g)) (node_ids g') = node_ids g \<and>
      take (length (edges g)) (edges g') = edges g)"

text \<open>The same specification with every deprecation mark cleared.\<close>

definition unmark :: "path_item \<Rightarrow> path_item" where
  "unmark ms = map (\<lambda>e. (fst e, (snd e)\<lparr>deprecated := False\<rparr>)) ms"

definition unmark_all :: "(string \<times> path_item) list \<Rightarrow> (string \<times> path_item) list" where
  "unmark_all ps = map (\<lambda>e. (fst e, unmark (snd e))) ps"

definition without_deprecation_marks :: "'a openapi_scheme \<Rightarrow> 'a openapi_scheme" where
  "without_deprecation_marks spec =
     spec\<lparr>paths := unmark_all (paths spec), webhooks := unmark_all (webhooks spec)\<rparr>"

text \<open>The same specification with every deprecated operation removed.\<close>

definition unlist :: "path_item \<Rightarrow> path_item" where
  "unlist ms = filter (\<lambda>e. \<not> deprecated (snd e)) ms"

definition unlist_all :: "(string \<times> path_item) list \<Rightarrow> (string \<times> path_item) list" where
  "unlist_all ps = map (\<lambda>e. (fst e, unlist (snd e))) ps"

definition without_deprecated_operations :: "'a openapi_scheme \<Rightarrow> 'a openapi_scheme" where
  "without_deprecated_operations spec =
     spec\<lparr>paths := unlist_all (paths spec), webhooks := unlist_all (webhooks spec)\<rparr>"

text \<open>The description of the last declared descriptor with a given name.\<close>

definition last_description :: "tag_descriptor list \<Rightarrow> string \<Rightarrow> jsval" where
  "last_description ts n = description (last (filter (\<lambda>x. name x = n) ts))"

text \<open>A node still has the record \<open>l\<close>, or a request has been written over it.\<close>

definition kept_or_request :: "string \<Rightarrow> node_label \<Rightarrow> graph \<Rightarrow> bool" where
  "kept_or_request v l g =
     (case node g v of None \<Rightarrow> False | Some l' \<Rightarrow> l' = l \<or> ntype l' = ''request'')"

text \<open>
  The path identifier at an index of the segment list, the folder of an inner segment and
  the node it hangs from, as the walk over the segments computes them.
\<close>

definition pathIdentifier_at :: "string list \<Rightarrow> nat \<Rightarrow> string" where
  "pathIdentifier_at segs index = join ''/'' (take (index + 1) segs)"

definition folder_at :: "string list \<Rightarrow> nat \<Rightarrow> string" where
  "folder_at segs index = path_folder_id (pathIdentifier_at segs index)"

definition parent_at :: "string list \<Rightarrow> nat \<Rightarrow> string" where
  "parent_at segs index =
     (if index = 0 then root_id else path_folder_id (join ''/'' (take index segs)))"

definition ancestor_folders :: "string list \<Rightarrow> string list" where
  "ancestor_folders segs = map (folder_at segs) [0..<length segs - 1]"

definition ancestor_edges :: "string list \<Rightarrow> (string \<times> string) list" where
  "ancestor_edges segs = map (\<lambda>i. (parent_at segs i, folder_at segs i)) [0..<length segs - 1]"

text \<open>
  What \<open>pathSplit\<close> returns: the one-element list of the root path, or segments that are
  not empty and contain no separator.
\<close>

definition segs_ok :: "string list \<Rightarrow> bool" where
  "segs_ok segs = (segs = [''/''] \<or> list_all (\<lambda>s. s \<noteq> [] \<and> CHR ''/'' \<notin> set s) segs)"

text \<open>
  Every node stored under the folder identifier of a prefix of segments is the folder of
  that prefix, named after its last segment, and hangs from the folder of the prefix one
  segment shorter (from the root when there is none).
\<close>

definition folder_exact :: "graph \<Rightarrow> bool" where
  "folder_exact g =
     (\<forall>segs i. segs_ok segs \<longrightarrow> i < length segs \<longrightarrow> hasNode g (folder_at segs i) \<longrightarrow>
        node g (folder_at segs i) =
          Some (path_folder_label (segs ! i) (pathIdentifier_at segs i)) \<and>
        hasEdge g (parent_at segs i) (folder_at segs i))"

text \<open>An identifier that no request of the path strategy can have.\<close>

definition no_path_request :: "string \<Rightarrow> bool" where
  "no_path_request v = (take 13 v \<noteq> ''path:request:'')"

text \<open>
  The identifiers a base strategy writes: the root and strings that begin with \<open>path:\<close>.
  Those of the webhook pass begin with \<open>path~\<close>.
\<close>

definition base_id :: "string \<Rightarrow> bool" where
  "base_id v = (v = root_id \<or> take 5 v = ''path:'')"

definition base_ids :: "graph \<Rightarrow> bool" where
  "base_ids g = list_all base_id (node_ids g)"

text \<open>
  The entries of the webhook items that pass the deprecation filter, in declaration order,
  and what the callback does for one of them.  The callback tests no key against
  \<^verbatim>\<open>ALLOWED_HTTP_METHODS\<close>, so every key of an item counts.
\<close>

definition webhook_operations :: "bool \<Rightarrow> (string \<times> path_item) list \<Rightarrow> (string \<times> string) list" where
  "webhook_operations inc ws =
     concat (map (\<lambda>w. map (\<lambda>e. (fst w, fst e))
                          (filter (\<lambda>e. \<not> (\<not> inc \<and> deprecated (snd e))) (snd w))) ws)"

definition webhook_request_ids :: "bool \<Rightarrow> (string \<times> path_item) list \<Rightarrow> string list" where
  "webhook_request_ids inc ws =
     map (\<lambda>pm. webhook_request_id (fst pm) (snd pm)) (webhook_operations inc ws)"

definition webhook_write :: "graph \<Rightarrow> string \<times> string \<Rightarrow> graph" where
  "webhook_write g pm =
     setEdge (setNode g (webhook_request_id (fst pm) (snd pm))
                (webhook_request_label (fst pm) (snd pm)))
       webhook_folder_id (webhook_request_id (fst pm) (snd pm))"


text \<open>
  What a list of calls does to a new graph, and the tree after the first \<open>k\<close> calls of a run.
\<close>

fun apply_call :: "graph \<Rightarrow> call \<Rightarrow> graph" where
  "apply_call g (SetNode v l) = setNode g v l"
| "apply_call g (SetEdge v w) = setEdge g v w"

definition replay :: "call list \<Rightarrow> graph" where
  "replay cs = foldl apply_call new_Graph cs"

text \<open>The records written under an identifier, in the order of the calls.\<close>

fun written :: "string \<Rightarrow> call \<Rightarrow> node_label list" where
  "written v (SetNode x l) = (if x = v then [l] else [])"
| "written v (SetEdge a b) = []"

definition node_writes :: "call list \<Rightarrow> string \<Rightarrow> node_label list" where
  "node_writes cs v = concat (map (written v) cs)"

text \<open>The request nodes written, identifier and record, in the order of the calls.\<close>

definition is_request :: "node_label \<Rightarrow> bool" where
  "is_request l = (ntype l = ''request'' \<or> ntype l = ''webhook~request'')"

fun request_of :: "call \<Rightarrow> (string \<times> node_label) list" where
  "request_of (SetNode v l) = (if is_request l then [(v, l)] else [])"
| "request_of (SetEdge a b) = []"

definition request_writes :: "call list \<Rightarrow> (string \<times> node_label) list" where
  "request_writes cs = concat (map request_of cs)"

text \<open>
  The discipline of the calls.  A \<^verbatim>\<open>setNode\<close> whose identifier is in the tree already writes
  a request.  A \<^verbatim>\<open>setEdge\<close> joins two nodes that are in the tree, and its pair is in the tree
  already only when the call before it was the \<^verbatim>\<open>setNode\<close> of its child, a request whose
  identifier was in the tree already.
\<close>

definition repeated_request :: "call list \<Rightarrow> string \<Rightarrow> bool" where
  "repeated_request cs w =
     (cs \<noteq> [] \<and>
      (case last cs of
         SetNode v l \<Rightarrow> v = w \<and> is_request l \<and> hasNode (replay (butlast cs)) w
       | SetEdge a b \<Rightarrow> False))"

fun ok_call :: "call list \<Rightarrow> call \<Rightarrow> bool" where
  "ok_call cs (SetNode v l) = (hasNode (replay cs) v \<longrightarrow> is_request l)"
| "ok_call cs (SetEdge v w) =
     (hasNode (replay cs) v \<and> hasNode (replay cs) w \<and>
      (hasEdge (replay cs) v w \<longrightarrow> repeated_request cs w))"

definition disciplined :: "call list \<Rightarrow> bool" where
  "disciplined cs = list_all (\<lambda>k. ok_call (take k cs) (cs ! k)) [0..<length cs]"

text \<open>
  What the proofs keep about a graph together with its list of calls: the graph is what the
  calls build, the calls are disciplined, every node written that is not a request is one of
  the folders \<open>F\<close> allows (with that record), and every edge starts at such a folder.
\<close>

fun call_ok :: "(string \<Rightarrow> node_label \<Rightarrow> bool) \<Rightarrow> call \<Rightarrow> bool" where
  "call_ok F (SetNode v l) = (is_request l \<or> F v l)"
| "call_ok F (SetEdge a b) = (\<exists>l. F a l)"

definition log_inv :: "(string \<Rightarrow> node_label \<Rightarrow> bool) \<Rightarrow> graph \<times> call list \<Rightarrow> bool" where
  "log_inv F s = (fst s = replay (snd s) \<and> disciplined (snd s) \<and> list_all (call_ok F) (snd s))"

definition path_folder_call :: "string \<Rightarrow> node_label \<Rightarrow> bool" where
  "path_folder_call v l =
     ((v = root_id \<and> l = root_label) \<or>
      (\<exists>pid x. v = path_folder_id pid \<and> l = path_folder_label x pid))"

definition tag_folder_call ::
  "string set \<Rightarrow> (string \<times> jsval) list \<Rightarrow> string \<Rightarrow> node_label \<Rightarrow> bool" where
  "tag_folder_call T tdm v l =
     ((v = root_id \<and> l = root_label) \<or>
      (\<exists>tag\<in>T. \<exists>p. v = tag_folder_id tag \<and> l = tag_folder_label p tag (obj_get tdm tag)))"

definition webhook_folder_call ::
  "(string \<Rightarrow> node_label \<Rightarrow> bool) \<Rightarrow> string \<Rightarrow> node_label \<Rightarrow> bool" where
  "webhook_folder_call F v l = (F v l \<or> (v = webhook_folder_id \<and> l = webhook_folder_label))"

text \<open>
  The tags that get a folder identifier: the keys of the tag map and the tags of the
  operations that pass the filters.
\<close>

definition operation_tags :: "bool \<Rightarrow> string \<times> operation \<Rightarrow> string list" where
  "operation_tags inc e =
     (if skipped inc e then [] else (case op_tags (snd e) of Some ts \<Rightarrow> ts | None \<Rightarrow> []))"

definition used_tags :: "bool \<Rightarrow> (string \<times> jsval) list \<Rightarrow> (string \<times> path_item) list \<Rightarrow> string list" where
  "used_tags inc tdm ps =
     map fst tdm @ concat (map (\<lambda>entry. concat (map (operation_tags inc) (snd entry))) ps)"

text \<open>
  The request identifier and record that each operation passing the filters of its
  callback derives, in the order in which the operations are visited: under the path
  strategy, under the tag strategy (one per tag, or one for an operation without tags),
  and among the webhooks (the filters are the allow-list and the deprecation test for the
  paths, the deprecation test alone for the webhooks).
\<close>

definition path_requests ::
  "bool \<Rightarrow> (string \<times> path_item) list \<Rightarrow> string \<Rightarrow> (string \<times> node_label) list" where
  "path_requests inc ps cp =
     (let segs = pathSplit cp
      in if segs = [] then []
         else map (\<lambda>e. (path_request_id (join ''/'' segs) (fst e),
                         path_request_label cp (fst e) (join ''/'' segs)))
                (filter (\<lambda>e. \<not> skipped inc e) (methods_of ps cp)))"







text \<open>
  A path reaches a prefix of segments, and so creates its folder, when it begins with the
  prefix and either continues beyond it or ends there with an operation that passes the
  filters.
\<close>

definition reaches :: "bool \<Rightarrow> (string \<times> path_item) list \<Rightarrow> string \<Rightarrow> string list \<Rightarrow> bool" where
  "reaches inc ps c pre =
     (pre \<noteq> [] \<and> length pre \<le> length (pathSplit c) \<and>
      take (length pre) (pathSplit c) = pre \<and>
      (length pre < length (pathSplit c) \<or> \<not> list_all (skipped inc) (methods_of ps c)))"

subsection \<open>Sample inputs\<close>

definition plain_op :: operation where
  "plain_op = \<lparr>deprecated = False, op_tags = None\<rparr>"

definition deprecated_op :: operation where
  "deprecated_op = \<lparr>deprecated = True, op_tags = None\<rparr>"

definition pet_store_op :: operation where
  "pet_store_op = \<lparr>deprecated = False, op_tags = Some [''Pet'', ''Store'']\<rparr>"

definition user_spec :: openapi where
  "user_spec =
     \<lparr>paths = [(''/user'', [(''get'', plain_op)]),
               (''/user/{id}'', [(''parameters'', plain_op), (''get'', plain_op)])],
      tags = [],
      webhooks = [(''newPet'', [(''post'', plain_op)])]\<rparr>"

definition paths_options :: options where
  "paths_options = \<lparr>folderStrategy = ''paths'', includeWebhooks = True, includeDeprecated = False\<rparr>"

definition misspelt_options :: options where
  "misspelt_options =
     \<lparr>folderStrategy = ''Tags'', includeWebhooks = True, includeDeprecated = False\<rparr>"

definition deprecated_spec :: openapi where
  "deprecated_spec =
     \<lparr>paths = [(''/user'', [(''get'', deprecated_op), (''post'', plain_op)])],
      tags = [],
      webhooks = [(''newPet'', [(''post'', deprecated_op)])]\<rparr>"

definition including_options :: options where
  "including_options =
     \<lparr>folderStrategy = ''tags'', includeWebhooks = True, includeDeprecated = True\<rparr>"

definition duplicate_tag_spec :: openapi where
  "duplicate_tag_spec =
     \<lparr>paths = [(''/pets'', [(''get'', \<lparr>deprecated = False, op_tags = Some [''Pet'']\<rparr>)])],
      tags = [\<lparr>name = ''Pet'', description = Str ''first''\<rparr>,
              \<lparr>name = ''Store'', description = Undefined\<rparr>,
              \<lparr>name = ''Pet'', description = Str ''second''\<rparr>],
      webhooks = []\<rparr>"

definition webhook_spec :: openapi where
  "webhook_spec =
     \<lparr>paths = [], tags = [],
      webhooks = [(''newPet'', [(''parameters'', plain_op), (''post'', plain_op)])]\<rparr>"

definition filtered_spec :: openapi where
  "filtered_spec =
     \<lparr>paths = [(''/user/{id}/pets'', [(''parameters'', plain_op), (''get'', deprecated_op)])],
      tags = [], webhooks = []\<rparr>"

definition slash_filtered_spec :: openapi where
  "slash_filtered_spec =
     \<lparr>paths = [(''/user'', [(''parameters'', plain_op), (''get'', deprecated_op)]),
               (''/user/'', [(''get'', deprecated_op)])],
      tags = [], webhooks = []\<rparr>"

definition hook_spec :: openapi where
  "hook_spec =
     \<lparr>paths = [(''/user'', [(''get'', plain_op)])],
      tags = [],
      webhooks = [(''newPet'', [(''post'', plain_op), (''get'', deprecated_op)]),
                  (''petSold'', [(''post'', plain_op)])]\<rparr>"






definition summary_hook_spec :: openapi where
  "summary_hook_spec =
     \<lparr>paths = [(''/user'', [(''get'', plain_op)])],
      tags = [],
      webhooks = [(''orderShipped'', [(''summary'', plain_op), (''post'', plain_op)])]\<rparr>"


subsection \<open>Paths with one segment\<close>

text \<open>
  On a one-element segment list the callback of lines 74--112 does what the callback of
  lines 123--169 does at index 0.
\<close>

lemma single_segment_method_last:
  "length segs = 1 \<Longrightarrow>
   single_segment_method inc cp segs g e = last_segment_method inc cp segs 0 g e"
  by (cases segs) (simp_all add: single_segment_method_def last_segment_method_def Let_def)

lemma path_step_unfold:
  "path_step inc ps g cp =
     (let segs = pathSplit cp
      in if length segs = 1
         then foldl (last_segment_method inc cp segs 0) g (methods_of ps cp)
         else foldl (segment_step inc ps cp segs) g [0..<length segs])"
proof -
  have "foldl (single_segment_method inc cp segs) g ms =
        foldl (last_segment_method inc cp segs 0) g ms" if "length segs = 1" for segs ms
    by (induction ms arbitrary: g) (simp_all add: single_segment_method_last [OF that])
  then show ?thesis by (simp add: path_step_def Let_def)
qed

subsection \<open>Facts about the store\<close>

lemma hasNode_ids: "hasNode g v \<longleftrightarrow> v \<in> set (node_ids g)"
  by (simp add: hasNode_def node_ids_def)

lemma node_ids_setNode:
  "node_ids (setNode g v l) = (if hasNode g v then node_ids g else node_ids g @ [v])"
  by (simp add: node_ids_def setNode_def hasNode_def update_keys image_iff)

lemma edges_setNode [simp]: "edges (setNode g v l) = edges g"
  by (simp add: setNode_def)

lemma hasEdge_setNode [simp]: "hasEdge (setNode g v l) a b = hasEdge g a b"
  by (simp add: hasEdge_def)

lemma hasNode_setNode [simp]: "hasNode (setNode g v l) w \<longleftrightarrow> w = v \<or> hasNode g w"
  by (auto simp: hasNode_ids node_ids_setNode)

lemma node_setNode [simp]: "node (setNode g v l) w = (if w = v then Some l else node g w)"
  by (simp add: node_def setNode_def update_conv')

lemma node_ids_setNode_default:
  "node_ids (setNode_default g v) = (if hasNode g v then node_ids g else node_ids g @ [v])"
  by (simp add: node_ids_def setNode_default_def)

lemma edges_setNode_default [simp]: "edges (setNode_default g v) = edges g"
  by (simp add: setNode_default_def)

lemma hasNode_setNode_default [simp]:
  "hasNode (setNode_default g v) w \<longleftrightarrow> w = v \<or> hasNode g w"
  by (auto simp: hasNode_ids node_ids_setNode_default)

lemma node_None_if_absent: "\<not> hasNode g v \<Longrightarrow> node g v = None"
proof -
  assume "\<not> hasNode g v"
  then have "map_of (nodes g) v = None"
    by (simp add: hasNode_def map_of_eq_None_iff)
  then show ?thesis by (simp add: node_def)
qed

lemma node_setNode_default [simp]: "node (setNode_default g v) w = node g w"
proof (cases "hasNode g v")
  case True
  then show ?thesis by (simp add: setNode_default_def)
next
  case False
  then have "map_of (nodes g) v = None"
    by (simp add: hasNode_def map_of_eq_None_iff)
  then show ?thesis
    using False by (simp add: setNode_default_def node_def map_add_def split: option.splits)
qed

lemma edges_setEdge:
  "edges (setEdge g v w) = (if hasEdge g v w then edges g else edges g @ [(v, w)])"
  by (simp add: setEdge_def Let_def)

lemma hasEdge_setEdge [simp]:
  "hasEdge (setEdge g v w) a b \<longleftrightarrow> (a = v \<and> b = w) \<or> hasEdge g a b"
  by (auto simp: hasEdge_def edges_setEdge)

lemma node_more_update [simp]: "node (g\<lparr>edges := es\<rparr>) x = node g x"
  by (simp add: node_def)

lemma hasNode_more_update [simp]: "hasNode (g\<lparr>edges := es\<rparr>) x = hasNode g x"
  by (simp add: hasNode_def)

lemma node_ids_more_update [simp]: "node_ids (g\<lparr>edges := es\<rparr>) = node_ids g"
  by (simp add: node_ids_def)

lemma node_setEdge [simp]: "node (setEdge g v w) x = node g x"
  by (simp add: setEdge_def Let_def)

lemma hasNode_setEdge_mono: "hasNode g x \<Longrightarrow> hasNode (setEdge g v w) x"
  by (simp add: setEdge_def Let_def)

lemma hasNode_setEdge_new:
  "\<not> hasEdge g v w \<Longrightarrow> hasNode (setEdge g v w) x \<longleftrightarrow> x = v \<or> x = w \<or> hasNode g x"
  by (auto simp: setEdge_def Let_def)

lemma setEdge_present:
  "hasNode g v \<Longrightarrow> hasNode g w \<Longrightarrow> node_ids (setEdge g v w) = node_ids g"
  by (simp add: setEdge_def Let_def node_ids_setNode_default)

lemma node_Some_hasNode: "node g v = Some l \<Longrightarrow> hasNode g v"
  using node_None_if_absent by fastforce

subsection \<open>Loops\<close>

lemma foldl_preserves:
  assumes "P s" and "\<And>s x. x \<in> set xs \<Longrightarrow> P s \<Longrightarrow> P (f s x)"
  shows "P (foldl f s xs)"
  using assms by (induction xs arbitrary: s) auto

lemma foldl_establishes:
  assumes "x \<in> set xs" and "\<And>s. Q (f s x)" and "\<And>s y. Q s \<Longrightarrow> Q (f s y)"
  shows "Q (foldl f s xs)"
proof -
  from assms(1) obtain ys zs where xs: "xs = ys @ x # zs"
    by (auto simp: in_set_conv_decomp)
  have "Q (f (foldl f s ys) x)" by (rule assms(2))
  then have "Q (foldl f (f (foldl f s ys) x) zs)"
    by (rule foldl_preserves) (rule assms(3))
  then show ?thesis by (simp add: xs)
qed

lemma foldl_skips:
  assumes "\<And>s x. x \<in> set xs \<Longrightarrow> f s x = s"
  shows "foldl f s xs = s"
  using assms by (induction xs arbitrary: s) auto

lemma foldl_agree:
  assumes "\<And>s x. x \<in> set xs \<Longrightarrow> f s x = h s x"
  shows "foldl f s xs = foldl h s xs"
  using assms by (induction xs arbitrary: s) auto

subsection \<open>Growth\<close>

lemma extends_refl [simp]: "extends g g"
  by (simp add: extends_def)

lemma extends_trans: "extends g g' \<Longrightarrow> extends g' g'' \<Longrightarrow> extends g g''"
  by (auto simp: extends_def)

lemma extends_hasNode: "extends g g' \<Longrightarrow> hasNode g v \<Longrightarrow> hasNode g' v"
  by (auto simp: extends_def hasNode_ids)

lemma extends_hasEdge: "extends g g' \<Longrightarrow> hasEdge g v w \<Longrightarrow> hasEdge g' v w"
  by (auto simp: extends_def hasEdge_def)

lemma extends_setNode: "extends g (setNode g v l)"
  by (auto simp: extends_def node_ids_setNode)

lemma extends_setEdge: "extends g (setEdge g v w)"
  using hasNode_setEdge_mono [of g _ v w]
  by (auto simp: extends_def edges_setEdge hasNode_ids)

lemma extends_foldl:
  assumes "\<And>s x. x \<in> set xs \<Longrightarrow> extends s (f s x)"
  shows "extends g (foldl f g xs)"
proof -
  have "extends g (foldl f g xs)"
    by (rule foldl_preserves [where P = "extends g"])
       (auto intro: extends_trans assms)
  then show ?thesis .
qed

subsection \<open>Well-formed stores\<close>

lemma labelled_setNode: "labelled g \<Longrightarrow> labelled (setNode g v l)"
proof -
  have "list_all P (AList.update k x xs)" if "list_all P xs" "P (k, x)"
    for P and k :: string and x :: "node_label option" and xs
    using that by (induction xs) auto
  then show "labelled g \<Longrightarrow> labelled (setNode g v l)"
    by (simp add: labelled_def setNode_def)
qed

lemma closed_edges_mono:
  assumes "closed_edges g" and "edges g' = edges g" and "\<And>v. hasNode g v \<Longrightarrow> hasNode g' v"
  shows "closed_edges g'"
  using assms by (auto simp: closed_edges_def list_all_iff)

lemma well_formed_setNode: "well_formed g \<Longrightarrow> well_formed (setNode g v l)"
  unfolding well_formed_def
  by (auto simp: node_ids_setNode labelled_setNode hasNode_ids [symmetric]
      intro: closed_edges_mono [of g])

lemma well_formed_setEdge:
  assumes "well_formed g" and "hasNode g v" and "hasNode g w"
  shows "well_formed (setEdge g v w)"
proof (cases "hasEdge g v w")
  case True
  then show ?thesis using assms by (simp add: setEdge_def)
next
  case False
  have n: "nodes (setEdge g v w) = nodes g"
    using assms(2,3) False by (simp add: setEdge_def Let_def setNode_default_def)
  have e: "edges (setEdge g v w) = edges g @ [(v, w)]"
    using False by (simp add: edges_setEdge)
  show ?thesis
    using assms False unfolding well_formed_def
    by (auto simp: e n node_ids_def labelled_def closed_edges_def hasNode_def hasEdge_def)
qed

lemma well_formed_hasNode_root: "well_formed g \<Longrightarrow> hasNode g root_id"
  by (simp add: well_formed_def)

lemma well_formed_root_tree: "well_formed root_tree"
  by (simp add: well_formed_def root_tree_def new_Graph_def setNode_def node_ids_def
      closed_edges_def labelled_def hasNode_def)

lemma count_one: "distinct xs \<Longrightarrow> x \<in> set xs \<Longrightarrow> count_list xs x = 1"
  by (induction xs) auto

subsection \<open>Deprecation marks\<close>

lemma last_segment_method_deprecated:
  "deprecated d \<Longrightarrow> last_segment_method False cp segs i g (m, d) = g"
  by (simp add: last_segment_method_def Let_def)

lemma single_segment_method_deprecated:
  "deprecated d \<Longrightarrow> single_segment_method False cp segs g (m, d) = g"
  by (simp add: single_segment_method_def Let_def)

lemma single_segment_method_included:
  "single_segment_method True cp segs g (m, d) =
   single_segment_method b cp segs g (m, d\<lparr>deprecated := False\<rparr>)"
  by (simp add: single_segment_method_def Let_def)

lemma tags_method_step_deprecated:
  "deprecated d \<Longrightarrow> tags_method_step False tdm p g (m, d) = g"
  by (simp add: tags_method_step_def Let_def)

lemma webhook_method_step_deprecated:
  "deprecated d \<Longrightarrow> webhook_method_step False p g (m, d) = g"
  by (simp add: webhook_method_step_def Let_def)

lemma last_segment_method_included:
  "last_segment_method True cp segs i g (m, d) =
   last_segment_method b cp segs i g (m, d\<lparr>deprecated := False\<rparr>)"
  by (simp add: last_segment_method_def Let_def)

lemma tags_method_step_included:
  "tags_method_step True tdm p g (m, d) =
   tags_method_step b tdm p g (m, d\<lparr>deprecated := False\<rparr>)"
  by (simp add: tags_method_step_def Let_def)

lemma webhook_method_step_included:
  "webhook_method_step True p g (m, d) =
   webhook_method_step b p g (m, d\<lparr>deprecated := False\<rparr>)"
  by (simp add: webhook_method_step_def Let_def)

lemma foldl_unmark:
  assumes "\<And>s m d. f s (m, d) = h s (m, d\<lparr>deprecated := False\<rparr>)"
  shows "foldl f s ms = foldl h s (unmark ms)"
  using assms by (induction ms arbitrary: s) (auto simp: unmark_def)

lemma methods_of_unmark_all: "methods_of (unmark_all ps) cp = unmark (methods_of ps cp)"
  by (induction ps) (auto simp: methods_of_def unmark_all_def unmark_def)

lemma keys_unmark_all: "map fst (unmark_all ps) = map fst ps"
  by (simp add: unmark_all_def comp_def)

lemma segment_step_included:
  "segment_step True ps cp segs g i = segment_step b (unmark_all ps) cp segs g i"
  by (simp add: segment_step_def methods_of_unmark_all
      foldl_unmark [where h = "last_segment_method b cp segs i"]
      last_segment_method_included [where b = b])

lemma path_step_included: "path_step True ps g cp = path_step b (unmark_all ps) g cp"
proof -
  have "foldl (segment_step True ps cp segs) g is =
        foldl (segment_step b (unmark_all ps) cp segs) g is" for segs "is"
    by (rule foldl_agree) (rule segment_step_included)
  then show ?thesis
    by (simp add: path_step_unfold Let_def methods_of_unmark_all
        foldl_unmark [where h = "last_segment_method b cp (pathSplit cp) 0"]
        last_segment_method_included [where b = b])
qed

lemma generateTreeFromPathsV2_included:
  "generateTreeFromPathsV2 spec True = generateTreeFromPathsV2 (without_deprecation_marks spec) b"
proof -
  have "foldl (path_step True (paths spec)) g ks =
        foldl (path_step b (unmark_all (paths spec))) g ks" for g ks
    by (rule foldl_agree) (rule path_step_included)
  then show ?thesis
    by (simp add: generateTreeFromPathsV2_def without_deprecation_marks_def keys_unmark_all
        Let_def)
qed

lemma foldl_unmark_all:
  assumes "\<And>s p ms. f s (p, ms) = h s (p, unmark ms)"
  shows "foldl f s ps = foldl h s (unmark_all ps)"
  using assms by (induction ps arbitrary: s) (auto simp: unmark_all_def)

lemma tags_path_step_included:
  "tags_path_step True tdm g (p, ms) = tags_path_step b tdm g (p, unmark ms)"
  by (simp add: tags_path_step_def
      foldl_unmark [where h = "tags_method_step b tdm p"]
      tags_method_step_included [where b = b])

lemma generateTreeFromTags_included:
  "generateTreeFromTags spec True = generateTreeFromTags (without_deprecation_marks spec) b"
  by (simp add: generateTreeFromTags_def without_deprecation_marks_def Let_def
      foldl_unmark_all [where h = "tags_path_step b (tagDescMap (tags spec))"]
      tags_path_step_included [where b = b])

lemma webhook_step_included:
  "webhook_step True g (p, ms) = webhook_step b g (p, unmark ms)"
  by (simp add: webhook_step_def
      foldl_unmark [where h = "webhook_method_step b p"]
      webhook_method_step_included [where b = b])

lemma unmark_all_Nil [simp]: "unmark_all ps = [] \<longleftrightarrow> ps = []"
  by (simp add: unmark_all_def)

lemma generateWebhookEndpoints_included:
  "generateWebhookEndpoints spec g True =
   generateWebhookEndpoints (without_deprecation_marks spec) g b"
proof -
  have "foldl (webhook_step True) s ps = foldl (webhook_step b) s (unmark_all ps)" for s ps
    by (rule foldl_unmark_all) (rule webhook_step_included)
  then show ?thesis
    by (simp add: generateWebhookEndpoints_def without_deprecation_marks_def Let_def)
qed

lemma foldl_unlist:
  assumes "\<And>s m d. deprecated d \<Longrightarrow> f s (m, d) = s"
  shows "foldl f s ms = foldl f s (unlist ms)"
  using assms by (induction ms arbitrary: s) (auto simp: unlist_def)

lemma methods_of_unlist_all: "methods_of (unlist_all ps) cp = unlist (methods_of ps cp)"
  by (induction ps) (auto simp: methods_of_def unlist_all_def unlist_def)

lemma keys_unlist_all: "map fst (unlist_all ps) = map fst ps"
  by (simp add: unlist_all_def comp_def)

lemma segment_step_excluded:
  "segment_step False ps cp segs g i = segment_step False (unlist_all ps) cp segs g i"
  by (simp add: segment_step_def methods_of_unlist_all
      foldl_unlist [of "last_segment_method False cp segs i", symmetric]
      last_segment_method_deprecated)

lemma path_step_excluded: "path_step False ps g cp = path_step False (unlist_all ps) g cp"
proof -
  have "foldl (segment_step False ps cp segs) g is =
        foldl (segment_step False (unlist_all ps) cp segs) g is" for segs "is"
    by (rule foldl_agree) (rule segment_step_excluded)
  then show ?thesis
    by (simp add: path_step_unfold Let_def methods_of_unlist_all
        foldl_unlist [of "last_segment_method False cp (pathSplit cp) 0", symmetric]
        last_segment_method_deprecated)
qed

lemma generateTreeFromPathsV2_excluded:
  "generateTreeFromPathsV2 spec False =
   generateTreeFromPathsV2 (without_deprecated_operations spec) False"
proof -
  have "foldl (path_step False (paths spec)) g ks =
        foldl (path_step False (unlist_all (paths spec))) g ks" for g ks
    by (rule foldl_agree) (rule path_step_excluded)
  then show ?thesis
    by (simp add: generateTreeFromPathsV2_def without_deprecated_operations_def
        keys_unlist_all Let_def)
qed

lemma foldl_unlist_all:
  assumes "\<And>s p ms. f s (p, ms) = f s (p, unlist ms)"
  shows "foldl f s ps = foldl f s (unlist_all ps)"
  using assms by (induction ps arbitrary: s) (auto simp: unlist_all_def)

lemma tags_path_step_excluded:
  "tags_path_step False tdm g (p, ms) = tags_path_step False tdm g (p, unlist ms)"
  by (simp add: tags_path_step_def
      foldl_unlist [of "tags_method_step False tdm p", symmetric]
      tags_method_step_deprecated)

lemma generateTreeFromTags_excluded:
  "generateTreeFromTags spec False =
   generateTreeFromTags (without_deprecated_operations spec) False"
  by (simp add: generateTreeFromTags_def without_deprecated_operations_def Let_def
      foldl_unlist_all [of "tags_path_step False (tagDescMap (tags spec))", symmetric]
      tags_path_step_excluded [symmetric])

lemma webhook_step_excluded:
  "webhook_step False g (p, ms) = webhook_step False g (p, unlist ms)"
  by (simp add: webhook_step_def
      foldl_unlist [of "webhook_method_step False p", symmetric]
      webhook_method_step_deprecated)

lemma unlist_all_Nil [simp]: "unlist_all ps = [] \<longleftrightarrow> ps = []"
  by (simp add: unlist_all_def)

lemma generateWebhookEndpoints_excluded:
  "generateWebhookEndpoints spec g False =
   generateWebhookEndpoints (without_deprecated_operations spec) g False"
proof -
  have "foldl (webhook_step False) s ps = foldl (webhook_step False) s (unlist_all ps)"
    for s ps
    by (rule foldl_unlist_all) (rule webhook_step_excluded)
  then show ?thesis
    by (simp add: generateWebhookEndpoints_def without_deprecated_operations_def Let_def)
qed

subsection \<open>The tag map\<close>

lemma map_of_insert_index:
  "k \<notin> fst ` set xs \<Longrightarrow> map_of (insert_index k v xs) = (map_of xs)(k \<mapsto> v)"
  by (induction xs) (auto simp: fun_eq_iff)

lemma map_of_snoc:
  "k \<notin> fst ` set xs \<Longrightarrow> map_of (xs @ [(k, v)]) = (map_of xs)(k \<mapsto> v)"
  by (induction xs) (auto simp: fun_eq_iff)

lemma map_of_obj_set:
  "k \<noteq> ''__proto__'' \<Longrightarrow> map_of (obj_set obj k v) = (map_of obj)(k \<mapsto> v)"
  by (simp add: obj_set_def update_conv' map_of_insert_index map_of_snoc del: map_of_append)

lemma obj_set_proto [simp]: "obj_set obj ''__proto__'' v = obj"
  by (simp add: obj_set_def)

lemma keys_insert_index: "set (map fst (insert_index k v xs)) = insert k (set (map fst xs))"
  by (induction xs) auto

lemma distinct_insert_index:
  "k \<notin> fst ` set xs \<Longrightarrow> distinct (map fst xs) \<Longrightarrow> distinct (map fst (insert_index k v xs))"
proof (induction xs)
  case Nil
  then show ?case by simp
next
  case (Cons p ps)
  then show ?case
    using keys_insert_index [of k v ps] by auto
qed

lemma distinct_obj_set:
  "distinct (map fst obj) \<Longrightarrow> distinct (map fst (obj_set obj k v))"
  by (auto simp: obj_set_def distinct_update distinct_insert_index)

lemma tagDescMap_snoc:
  "tagDescMap (ts @ [t]) = obj_set (tagDescMap ts) (name t) (description t)"
  by (simp add: tagDescMap_def)

lemma distinct_tagDescMap: "distinct (map fst (tagDescMap ts))"
  by (induction ts rule: rev_induct) (simp_all add: tagDescMap_def distinct_obj_set)

lemma map_of_tagDescMap:
  "map_of (tagDescMap ts) n =
     (if n = ''__proto__'' \<or> filter (\<lambda>x. name x = n) ts = [] then None
      else Some (last_description ts n))"
proof (induction ts rule: rev_induct)
  case Nil
  then show ?case by (simp add: tagDescMap_def)
next
  case (snoc t ts)
  show ?case
  proof (cases "name t = ''__proto__''")
    case True
    then show ?thesis
      using snoc by (auto simp: tagDescMap_snoc last_description_def)
  next
    case False
    then show ?thesis
      using snoc by (auto simp: tagDescMap_snoc map_of_obj_set last_description_def)
  qed
qed

lemma obj_get_tagDescMap:
  assumes "d \<in> set ts" and "name d \<noteq> ''__proto__''"
  shows "obj_get (tagDescMap ts) (name d) = last_description ts (name d)"
proof -
  from assms(1) have "filter (\<lambda>x. name x = name d) ts \<noteq> []"
    by (auto simp: filter_empty_conv)
  with assms(2) show ?thesis
    by (simp add: obj_get_def map_of_tagDescMap)
qed

lemma tagDescMap_key:
  assumes "d \<in> set ts" and "name d \<noteq> ''__proto__''"
  shows "name d \<in> fst ` set (tagDescMap ts)"
proof -
  from assms(1) have "filter (\<lambda>x. name x = name d) ts \<noteq> []"
    by (auto simp: filter_empty_conv)
  with assms(2) have "map_of (tagDescMap ts) (name d) \<noteq> None"
    by (simp add: map_of_tagDescMap)
  then show ?thesis
    by (simp add: map_of_eq_None_iff)
qed

subsection \<open>Identifiers\<close>

lemma tag_folder_id_not_root [simp]: "tag_folder_id t \<noteq> root_id" "root_id \<noteq> tag_folder_id t"
  by (simp_all add: tag_folder_id_def root_id_def)

lemma tag_folder_id_inject [simp]: "tag_folder_id a = tag_folder_id b \<longleftrightarrow> a = b"
  by (simp add: tag_folder_id_def)

lemma hasNode_root_tree [simp]: "hasNode root_tree v \<longleftrightarrow> v = root_id"
  by (simp add: root_tree_def new_Graph_def setNode_def hasNode_def)

lemma node_root_tree: "node root_tree v = (if v = root_id then Some root_label else None)"
  by (simp add: root_tree_def new_Graph_def setNode_def node_def)

subsection \<open>Folders of the declared tags\<close>

lemma hasNode_setEdge:
  "hasNode (setEdge g v w) x \<longleftrightarrow> hasNode g x \<or> (\<not> hasEdge g v w \<and> (x = v \<or> x = w))"
  by (auto simp: setEdge_def Let_def)

lemma hasNode_declared_tag_step:
  "hasNode g root_id \<Longrightarrow>
   hasNode (declared_tag_step tdm g e) v \<longleftrightarrow> v = tag_folder_id (fst e) \<or> hasNode g v"
  by (auto simp: declared_tag_step_def Let_def hasNode_setEdge)

lemma node_declared_tag_step_old:
  "hasNode g v \<Longrightarrow> node (declared_tag_step tdm g e) v = node g v"
  by (auto simp: declared_tag_step_def Let_def)

lemma node_declared_tag_step_new:
  "\<not> hasNode g (tag_folder_id (fst e)) \<Longrightarrow>
   node (declared_tag_step tdm g e) (tag_folder_id (fst e)) =
     Some (tag_folder_label '''' (fst e) (obj_get tdm (fst e)))"
  by (simp add: declared_tag_step_def Let_def)

lemma node_declared_tag_loop_old:
  "hasNode g root_id \<Longrightarrow> hasNode g v \<Longrightarrow>
   node (foldl (declared_tag_step tdm) g xs) v = node g v"
proof (induction xs arbitrary: g)
  case Nil
  then show ?case by simp
next
  case (Cons e xs)
  then show ?case
    by (simp add: hasNode_declared_tag_step node_declared_tag_step_old)
qed

lemma node_declared_tag_loop_new:
  "hasNode g root_id \<Longrightarrow> k \<in> fst ` set xs \<Longrightarrow> \<not> hasNode g (tag_folder_id k) \<Longrightarrow>
   node (foldl (declared_tag_step tdm) g xs) (tag_folder_id k) =
     Some (tag_folder_label '''' k (obj_get tdm k))"
proof (induction xs arbitrary: g)
  case Nil
  then show ?case by simp
next
  case (Cons e xs)
  show ?case
  proof (cases "fst e = k")
    case True
    have "node (foldl (declared_tag_step tdm) (declared_tag_step tdm g e) xs) (tag_folder_id k) =
          node (declared_tag_step tdm g e) (tag_folder_id k)"
      using Cons.prems True
      by (intro node_declared_tag_loop_old) (simp_all add: hasNode_declared_tag_step)
    then show ?thesis
      using Cons.prems True node_declared_tag_step_new [of g e tdm] by simp
  next
    case False
    then have "k \<in> fst ` set xs" using Cons.prems by auto
    moreover have "\<not> hasNode (declared_tag_step tdm g e) (tag_folder_id k)"
      using Cons.prems False by (simp add: hasNode_declared_tag_step)
    moreover have "hasNode (declared_tag_step tdm g e) root_id"
      using Cons.prems by (simp add: hasNode_declared_tag_step)
    ultimately show ?thesis
      using Cons.IH [of "declared_tag_step tdm g e"] by simp
  qed
qed

lemma node_declared_tag_folders:
  "k \<in> fst ` set tdm \<Longrightarrow>
   node (declared_tag_folders tdm) (tag_folder_id k) =
     Some (tag_folder_label '''' k (obj_get tdm k))"
  unfolding declared_tag_folders_def
  by (rule node_declared_tag_loop_new) simp_all

subsection \<open>Records under the tag strategy\<close>

lemma ntype_labels [simp]:
  "ntype (tag_request_label t p m) = ''request''"
  "ntype (untagged_request_label p m) = ''request''"
  "ntype (path_request_label cp m pid) = ''request''"
  "ntype (tag_folder_label p t d) = ''folder''"
  "ntype (path_folder_label x pid) = ''folder''"
  "ntype root_label = ''collection''"
  "ntype webhook_folder_label = ''webhook~folder''"
  "ntype (webhook_request_label p m) = ''webhook~request''"
  by (simp_all add: tag_request_label_def untagged_request_label_def path_request_label_def
      tag_folder_label_def path_folder_label_def root_label_def webhook_folder_label_def
      webhook_request_label_def)

lemma kept_or_request_hasNode: "kept_or_request v l g \<Longrightarrow> hasNode g v"
  by (auto simp: kept_or_request_def split: option.splits dest: node_Some_hasNode)

lemma kept_or_request_tag_request_step:
  "kept_or_request v l g \<Longrightarrow> kept_or_request v l (tag_request_step tdm p m g t)"
  by (frule kept_or_request_hasNode)
     (auto simp: kept_or_request_def tag_request_step_def Let_def split: option.splits)

lemma kept_or_request_untagged_request:
  "kept_or_request v l g \<Longrightarrow> kept_or_request v l (untagged_request p m g)"
  by (auto simp: kept_or_request_def untagged_request_def split: option.splits)

lemma kept_or_request_tags_method_step:
  "kept_or_request v l g \<Longrightarrow> kept_or_request v l (tags_method_step inc tdm p g e)"
  by (auto simp: tags_method_step_def Let_def kept_or_request_untagged_request
      split: option.splits
      intro!: foldl_preserves [where P = "kept_or_request v l"]
        kept_or_request_tag_request_step)

lemma kept_or_request_tags_path_step:
  "kept_or_request v l g \<Longrightarrow> kept_or_request v l (tags_path_step inc tdm g e)"
  unfolding tags_path_step_def
  by (rule foldl_preserves [where P = "kept_or_request v l"])
     (simp_all add: kept_or_request_tags_method_step)

lemma kept_or_request_generateTreeFromTags:
  assumes "node (declared_tag_folders (tagDescMap (tags spec))) v = Some l"
  shows "kept_or_request v l (generateTreeFromTags spec inc)"
  unfolding generateTreeFromTags_def Let_def
proof (rule foldl_preserves [where P = "kept_or_request v l"])
  show "kept_or_request v l (declared_tag_folders (tagDescMap (tags spec)))"
    by (simp add: assms kept_or_request_def)
qed (rule kept_or_request_tags_path_step)

subsection \<open>Keys outside the allow-list\<close>

lemma last_segment_method_not_allowed:
  "\<not> ALLOWED_HTTP_METHODS m \<Longrightarrow> last_segment_method inc cp segs i g (m, d) = g"
  by (simp add: last_segment_method_def Let_def)

lemma single_segment_method_not_allowed:
  "\<not> ALLOWED_HTTP_METHODS m \<Longrightarrow> single_segment_method inc cp segs g (m, d) = g"
  by (simp add: single_segment_method_def Let_def)

lemma tags_method_step_not_allowed:
  "\<not> ALLOWED_HTTP_METHODS m \<Longrightarrow> tags_method_step inc tdm p g (m, d) = g"
  by (simp add: tags_method_step_def Let_def)

lemma last_segment_method_skipped:
  "skipped inc e \<Longrightarrow> last_segment_method inc cp segs i g e = g"
  by (cases e) (auto simp: skipped_def last_segment_method_def Let_def)

lemma tags_method_step_skipped:
  "skipped inc e \<Longrightarrow> tags_method_step inc tdm p g e = g"
  by (cases e) (auto simp: skipped_def tags_method_step_def Let_def)

lemma inherited_key_passes_allow_list:
  "ALLOWED_HTTP_METHODS ''toString'' \<and>
   generateTreeFromPathsV2
     \<lparr>paths = [(''/user'', [(''toString'', plain_op)])], tags = [], webhooks = []\<rparr> False =
     \<lparr>nodes =
        [(''root:collection'', Some root_label),
         (''path:folder:user'', Some (path_folder_label ''user'' ''user'')),
         (''path:request:user:toString'',
          Some (path_request_label ''/user'' ''toString'' ''user''))],
      edges =
        [(''root:collection'', ''path:folder:user''),
         (''path:folder:user'', ''path:request:user:toString'')]\<rparr>"
  by code_simp

subsection \<open>Identifiers of the path strategy\<close>

lemma path_ids_differ [simp]:
  "path_folder_id p \<noteq> root_id" "root_id \<noteq> path_folder_id p"
  "path_request_id p m \<noteq> root_id" "root_id \<noteq> path_request_id p m"
  "path_folder_id p \<noteq> path_request_id q m" "path_request_id q m \<noteq> path_folder_id p"
  by (simp_all add: path_folder_id_def path_request_id_def root_id_def)

lemma path_folder_id_inject [simp]: "path_folder_id a = path_folder_id b \<longleftrightarrow> a = b"
  by (simp add: path_folder_id_def)

lemma parent_at_Suc: "parent_at segs (Suc i) = folder_at segs i"
  by (simp add: parent_at_def folder_at_def pathIdentifier_at_def)

lemma join_snoc: "xs \<noteq> [] \<Longrightarrow> join sep (xs @ [y]) = join sep xs @ sep @ y"
  by (induction sep xs rule: join.induct) auto

lemma length_join_take_less:
  assumes "sep \<noteq> []" and "0 < i" and "i < j" and "j \<le> length xs"
  shows "length (join sep (take i xs)) < length (join sep (take j xs))"
  using assms(3,4)
proof (induction j)
  case 0
  then show ?case by simp
next
  case (Suc j)
  have ne: "take j xs \<noteq> []" using Suc.prems assms(2) by auto
  have "take (Suc j) xs = take j xs @ [xs ! j]"
    using Suc.prems by (simp add: take_Suc_conv_app_nth)
  then have len: "length (join sep (take (Suc j) xs)) =
                  length (join sep (take j xs)) + length sep + length (xs ! j)"
    using ne by (simp add: join_snoc)
  show ?case
  proof (cases "i = j")
    case True
    then show ?thesis using len assms(1) by (cases sep) auto
  next
    case False
    then have "length (join sep (take i xs)) < length (join sep (take j xs))"
      using Suc by simp
    then show ?thesis using len by simp
  qed
qed

lemma pathIdentifier_at_inject:
  assumes "i < length segs" and "j < length segs"
  shows "pathIdentifier_at segs i = pathIdentifier_at segs j \<longleftrightarrow> i = j"
proof -
  have "pathIdentifier_at segs a \<noteq> pathIdentifier_at segs b"
    if "a < b" "b < length segs" for a b
    using length_join_take_less [of "''/''" "a + 1" "b + 1" segs] that
    by (auto simp: pathIdentifier_at_def)
  then show ?thesis
    using assms by (metis linorder_neqE_nat)
qed

lemma folder_at_inject:
  "i < length segs \<Longrightarrow> j < length segs \<Longrightarrow> folder_at segs i = folder_at segs j \<longleftrightarrow> i = j"
  by (simp add: folder_at_def pathIdentifier_at_inject)

lemma last_folder_not_ancestor:
  "path_folder_id (join ''/'' segs) \<notin> set (ancestor_folders segs)"
proof
  assume "path_folder_id (join ''/'' segs) \<in> set (ancestor_folders segs)"
  then obtain i where i: "i < length segs - 1"
    and eq: "path_folder_id (join ''/'' segs) = folder_at segs i"
    by (auto simp: ancestor_folders_def)
  have "join ''/'' segs = pathIdentifier_at segs (length segs - 1)"
    using i by (simp add: pathIdentifier_at_def)
  with eq have "pathIdentifier_at segs (length segs - 1) = pathIdentifier_at segs i"
    by (simp add: folder_at_def)
  moreover have "length segs - 1 < length segs" "i < length segs"
    using i by simp_all
  ultimately show False
    using i pathIdentifier_at_inject [of "length segs - 1" segs i] by simp
qed

lemma request_not_ancestor: "path_request_id pid m \<notin> set (ancestor_folders segs)"
  by (auto simp: ancestor_folders_def folder_at_def)

subsection \<open>The walk over the segments\<close>

lemma inner_segment_unfold:
  "inner_segment segs g i =
     (let g1 = (if hasNode g (folder_at segs i) then g
                else setNode g (folder_at segs i)
                       (path_folder_label (segs ! i) (pathIdentifier_at segs i)))
      in setEdge g1 (parent_at segs i) (folder_at segs i))"
  by (simp add: inner_segment_def Let_def folder_at_def parent_at_def pathIdentifier_at_def
      setEdge_def)

lemma inner_segment_nodes:
  assumes "hasNode g (parent_at segs i)"
  shows "set (node_ids (inner_segment segs g i)) = insert (folder_at segs i) (set (node_ids g))"
  using assms
  by (auto simp: inner_segment_unfold Let_def hasNode_ids [symmetric] hasNode_setEdge)

lemma inner_segment_edges:
  "set (edges (inner_segment segs g i)) =
     insert (parent_at segs i, folder_at segs i) (set (edges g))"
  by (auto simp: inner_segment_unfold Let_def edges_setEdge hasEdge_def)

lemma inner_segment_node_old:
  "hasNode g v \<Longrightarrow> node (inner_segment segs g i) v = node g v"
  by (auto simp: inner_segment_unfold Let_def)

lemma inner_segment_node_new:
  "\<not> hasNode g (folder_at segs i) \<Longrightarrow>
   node (inner_segment segs g i) (folder_at segs i) =
     Some (path_folder_label (segs ! i) (pathIdentifier_at segs i))"
  by (simp add: inner_segment_unfold Let_def)

lemma path_step_single:
  "length (pathSplit cp) = 1 \<Longrightarrow>
   path_step inc ps g cp =
     foldl (last_segment_method inc cp (pathSplit cp) 0) g (methods_of ps cp)"
  by (simp add: path_step_unfold Let_def)

lemma path_step_walk:
  assumes "2 \<le> length (pathSplit cp)"
  shows "path_step inc ps g cp =
           foldl (last_segment_method inc cp (pathSplit cp) (length (pathSplit cp) - 1))
             (foldl (inner_segment (pathSplit cp)) g [0..<length (pathSplit cp) - 1])
             (methods_of ps cp)"
proof -
  define segs where "segs = pathSplit cp"
  define n where "n = length segs - 1"
  have len: "length segs = Suc n" using assms by (simp add: n_def segs_def)
  have "foldl (segment_step inc ps cp segs) g [0..<n] = foldl (inner_segment segs) g [0..<n]"
    by (rule foldl_agree) (simp add: segment_step_def len)
  then have "foldl (segment_step inc ps cp segs) g [0..<Suc n] =
             foldl (last_segment_method inc cp segs n)
               (foldl (inner_segment segs) g [0..<n]) (methods_of ps cp)"
    by (simp add: segment_step_def len)
  then show ?thesis
    using assms len by (simp add: path_step_unfold Let_def segs_def [symmetric] n_def [symmetric])
qed

lemma path_step_empty: "pathSplit cp = [] \<Longrightarrow> path_step inc ps g cp = g"
  by (simp add: path_step_unfold Let_def)

lemma inner_walk:
  assumes "hasNode g root_id" and "k < length segs"
  shows "set (node_ids (foldl (inner_segment segs) g [0..<k])) =
           set (node_ids g) \<union> folder_at segs ` {..<k} \<and>
         set (edges (foldl (inner_segment segs) g [0..<k])) =
           set (edges g) \<union> (\<lambda>i. (parent_at segs i, folder_at segs i)) ` {..<k} \<and>
         (\<forall>v. hasNode g v \<longrightarrow> node (foldl (inner_segment segs) g [0..<k]) v = node g v) \<and>
         (\<forall>i<k. \<not> hasNode g (folder_at segs i) \<longrightarrow>
            node (foldl (inner_segment segs) g [0..<k]) (folder_at segs i) =
              Some (path_folder_label (segs ! i) (pathIdentifier_at segs i)))"
  using assms(2)
proof (induction k)
  case 0
  then show ?case by simp
next
  case (Suc k)
  define r where "r = foldl (inner_segment segs) g [0..<k]"
  have IH: "set (node_ids r) = set (node_ids g) \<union> folder_at segs ` {..<k}"
    "set (edges r) = set (edges g) \<union> (\<lambda>i. (parent_at segs i, folder_at segs i)) ` {..<k}"
    "\<And>v. hasNode g v \<Longrightarrow> node r v = node g v"
    "\<And>i. i < k \<Longrightarrow> \<not> hasNode g (folder_at segs i) \<Longrightarrow>
       node r (folder_at segs i) = Some (path_folder_label (segs ! i) (pathIdentifier_at segs i))"
    using Suc by (simp_all add: r_def)
  have par: "hasNode r (parent_at segs k)"
  proof (cases k)
    case 0
    then show ?thesis using assms(1) IH(1) by (simp add: parent_at_def hasNode_ids)
  next
    case (Suc j)
    then show ?thesis using IH(1) by (auto simp: parent_at_Suc hasNode_ids)
  qed
  have step: "foldl (inner_segment segs) g [0..<Suc k] = inner_segment segs r k"
    by (simp add: r_def)
  have a: "set (node_ids (inner_segment segs r k)) =
           set (node_ids g) \<union> folder_at segs ` {..<Suc k}"
    using inner_segment_nodes [OF par] IH(1) by (auto simp: lessThan_Suc)
  have b: "set (edges (inner_segment segs r k)) =
           set (edges g) \<union> (\<lambda>i. (parent_at segs i, folder_at segs i)) ` {..<Suc k}"
    using inner_segment_edges [of segs r k] IH(2) by (auto simp: lessThan_Suc)
  have c: "node (inner_segment segs r k) v = node g v" if "hasNode g v" for v
  proof -
    have "hasNode r v" using that IH(1) by (auto simp: hasNode_ids)
    then show ?thesis using IH(3) [OF that] by (simp add: inner_segment_node_old)
  qed
  have d: "node (inner_segment segs r k) (folder_at segs i) =
           Some (path_folder_label (segs ! i) (pathIdentifier_at segs i))"
    if "i < Suc k" "\<not> hasNode g (folder_at segs i)" for i
  proof (cases "i = k")
    case True
    have "\<not> hasNode r (folder_at segs k)"
    proof
      assume "hasNode r (folder_at segs k)"
      then have "folder_at segs k \<in> folder_at segs ` {..<k}"
        using IH(1) that(2) True by (auto simp: hasNode_ids)
      then obtain j where "j < k" "folder_at segs k = folder_at segs j" by auto
      then show False
        using folder_at_inject [of k segs j] Suc.prems by simp
    qed
    then show ?thesis using True by (simp add: inner_segment_node_new)
  next
    case False
    then have ik: "i < k" using that(1) by simp
    have "hasNode r (folder_at segs i)"
      using IH(1) ik by (auto simp: hasNode_ids)
    then show ?thesis
      using IH(4) [OF ik that(2)] by (simp add: inner_segment_node_old)
  qed
  show ?case
    unfolding step using a b c d by blast
qed

lemma update_absent: "k \<notin> fst ` set xs \<Longrightarrow> AList.update k v xs = xs @ [(k, v)]"
  by (induction xs) auto

lemma nodes_setNode_new: "\<not> hasNode g v \<Longrightarrow> nodes (setNode g v l) = nodes g @ [(v, Some l)]"
  by (simp add: setNode_def hasNode_def update_absent)

lemma nodes_setEdge_present:
  "hasNode g v \<Longrightarrow> hasNode g w \<Longrightarrow> nodes (setEdge g v w) = nodes g"
  by (simp add: setEdge_def Let_def setNode_default_def)

lemma closed_edges_hasNode:
  "closed_edges g \<Longrightarrow> hasEdge g v w \<Longrightarrow> hasNode g v \<and> hasNode g w"
  by (auto simp: closed_edges_def hasEdge_def list_all_iff)

lemma inner_walk_fresh:
  assumes "hasNode g root_id" and "closed_edges g" and "k < length segs"
    and "\<forall>i<k. \<not> hasNode g (folder_at segs i)"
  shows "nodes (foldl (inner_segment segs) g [0..<k]) =
           nodes g @ map (\<lambda>i. (folder_at segs i,
                           Some (path_folder_label (segs ! i) (pathIdentifier_at segs i))))
                      [0..<k] \<and>
         edges (foldl (inner_segment segs) g [0..<k]) =
           edges g @ map (\<lambda>i. (parent_at segs i, folder_at segs i)) [0..<k]"
  using assms(3,4)
proof (induction k)
  case 0
  then show ?case by simp
next
  case (Suc k)
  define r where "r = foldl (inner_segment segs) g [0..<k]"
  have IH: "nodes r = nodes g @ map (\<lambda>i. (folder_at segs i,
                Some (path_folder_label (segs ! i) (pathIdentifier_at segs i)))) [0..<k]"
    "edges r = edges g @ map (\<lambda>i. (parent_at segs i, folder_at segs i)) [0..<k]"
    using Suc by (simp_all add: r_def)
  have ids: "set (node_ids r) = set (node_ids g) \<union> folder_at segs ` {..<k}"
    using IH(1) by (auto simp: node_ids_def image_Un image_image atLeast0LessThan)
  have new: "\<not> hasNode r (folder_at segs k)"
  proof
    assume "hasNode r (folder_at segs k)"
    then have "folder_at segs k \<in> folder_at segs ` {..<k}"
      using ids Suc.prems by (auto simp: hasNode_ids)
    then obtain j where "j < k" "folder_at segs k = folder_at segs j" by auto
    then show False
      using folder_at_inject [of k segs j] Suc.prems by simp
  qed
  have par: "hasNode r (parent_at segs k)"
  proof (cases k)
    case 0
    then show ?thesis using assms(1) ids by (simp add: parent_at_def hasNode_ids)
  next
    case (Suc j)
    then show ?thesis using ids by (auto simp: parent_at_Suc hasNode_ids)
  qed
  have noedge: "\<not> hasEdge r (parent_at segs k) (folder_at segs k)"
  proof
    assume "hasEdge r (parent_at segs k) (folder_at segs k)"
    then have "(parent_at segs k, folder_at segs k) \<in> set (edges g) \<or>
               (\<exists>j<k. folder_at segs k = folder_at segs j)"
      using IH(2) by (auto simp: hasEdge_def)
    then show False
    proof
      assume "(parent_at segs k, folder_at segs k) \<in> set (edges g)"
      then have "hasNode g (folder_at segs k)"
        using closed_edges_hasNode [OF assms(2)] by (simp add: hasEdge_def)
      then show False using Suc.prems by simp
    next
      assume "\<exists>j<k. folder_at segs k = folder_at segs j"
      then obtain j where "j < k" "folder_at segs k = folder_at segs j" by auto
      then show False
        using folder_at_inject [of k segs j] Suc.prems by simp
    qed
  qed
  have "nodes (inner_segment segs r k) =
        nodes r @ [(folder_at segs k,
                    Some (path_folder_label (segs ! k) (pathIdentifier_at segs k)))]"
    using new par by (simp add: inner_segment_unfold nodes_setEdge_present nodes_setNode_new)
  moreover have "edges (inner_segment segs r k) =
        edges r @ [(parent_at segs k, folder_at segs k)]"
    using new noedge by (simp add: inner_segment_unfold edges_setEdge)
  ultimately show ?case
    using IH by (simp add: r_def)
qed

lemma skipped_methods_loop:
  "list_all (skipped inc) ms \<Longrightarrow> foldl (last_segment_method inc cp segs i) g ms = g"
  by (rule foldl_skips) (simp add: list_all_iff last_segment_method_skipped)

lemma ancestor_folders_image: "set (ancestor_folders segs) = folder_at segs ` {..<length segs - 1}"
  by (auto simp: ancestor_folders_def atLeast0LessThan)

lemma ancestor_edges_image:
  "set (ancestor_edges segs) =
     (\<lambda>i. (parent_at segs i, folder_at segs i)) ` {..<length segs - 1}"
  by (auto simp: ancestor_edges_def atLeast0LessThan)

subsection \<open>Every step of the path strategy keeps the store well formed\<close>

lemma last_segment_method_unfold:
  "last_segment_method inc cp segs i g e =
     (if skipped inc e then g
      else setEdge
             (setNode
                (if hasNode g (folder_at segs i) then g
                 else setEdge
                        (setNode g (folder_at segs i)
                           (path_folder_label (segs ! i) (pathIdentifier_at segs i)))
                        (parent_at segs i) (folder_at segs i))
                (path_request_id (pathIdentifier_at segs i) (fst e))
                (path_request_label cp (fst e) (pathIdentifier_at segs i)))
             (folder_at segs i) (path_request_id (pathIdentifier_at segs i) (fst e)))"
  by (auto simp: last_segment_method_def skipped_def Let_def folder_at_def parent_at_def
      pathIdentifier_at_def)

lemma extends_then_setNode: "extends g g' \<Longrightarrow> extends g (setNode g' v l)"
  by (rule extends_trans [OF _ extends_setNode])

lemma extends_then_setEdge: "extends g g' \<Longrightarrow> extends g (setEdge g' v w)"
  by (rule extends_trans [OF _ extends_setEdge])

lemma extends_last_segment_method: "extends g (last_segment_method inc cp segs i g e)"
  unfolding last_segment_method_unfold
  by (auto intro!: extends_then_setNode extends_then_setEdge)

lemma extends_inner_segment: "extends g (inner_segment segs g i)"
  unfolding inner_segment_unfold Let_def
  by (auto intro!: extends_then_setNode extends_then_setEdge)

lemma extends_segment_step: "extends g (segment_step inc ps cp segs g i)"
  unfolding segment_step_def
  by (auto intro: extends_foldl extends_last_segment_method extends_inner_segment)

lemma extends_path_step: "extends g (path_step inc ps g cp)"
  unfolding path_step_unfold Let_def
  by (auto intro: extends_foldl extends_last_segment_method extends_segment_step)

lemma well_formed_last_segment_method:
  assumes "well_formed g" and "hasNode g (parent_at segs i)"
  shows "well_formed (last_segment_method inc cp segs i g e)"
  using assms unfolding last_segment_method_unfold
  by (auto intro!: well_formed_setEdge well_formed_setNode simp: hasNode_setEdge)

lemma well_formed_last_segment_loop:
  assumes "well_formed g" and "hasNode g (parent_at segs i)"
  shows "well_formed (foldl (last_segment_method inc cp segs i) g ms)"
proof -
  have "well_formed (foldl (last_segment_method inc cp segs i) g ms) \<and>
        hasNode (foldl (last_segment_method inc cp segs i) g ms) (parent_at segs i)"
    by (rule foldl_preserves
          [where P = "\<lambda>s. well_formed s \<and> hasNode s (parent_at segs i)"])
       (auto simp: assms well_formed_last_segment_method
          intro: extends_hasNode [OF extends_last_segment_method])
  then show ?thesis by simp
qed

lemma well_formed_inner_segment:
  assumes "well_formed g" and "hasNode g (parent_at segs i)"
  shows "well_formed (inner_segment segs g i)"
  using assms unfolding inner_segment_unfold Let_def
  by (auto intro!: well_formed_setEdge well_formed_setNode)

lemma hasNode_inner_segment: "hasNode (inner_segment segs g i) (folder_at segs i)"
  by (auto simp: inner_segment_unfold Let_def hasNode_setEdge)

lemma well_formed_inner_walk:
  assumes "well_formed g"
  shows "well_formed (foldl (inner_segment segs) g [0..<k]) \<and>
         (\<forall>i<k. hasNode (foldl (inner_segment segs) g [0..<k]) (folder_at segs i))"
proof (induction k)
  case 0
  then show ?case using assms by simp
next
  case (Suc k)
  define r where "r = foldl (inner_segment segs) g [0..<k]"
  have IH: "well_formed r" "\<And>i. i < k \<Longrightarrow> hasNode r (folder_at segs i)"
    using Suc by (simp_all add: r_def)
  have par: "hasNode r (parent_at segs k)"
  proof (cases k)
    case 0
    then show ?thesis
      using IH(1) by (simp add: parent_at_def well_formed_hasNode_root)
  next
    case (Suc j)
    then show ?thesis using IH(2) [of j] by (simp add: parent_at_Suc)
  qed
  have "well_formed (inner_segment segs r k)"
    using IH(1) par by (rule well_formed_inner_segment)
  moreover have "hasNode (inner_segment segs r k) (folder_at segs i)" if "i < Suc k" for i
  proof (cases "i = k")
    case True
    then show ?thesis by (simp add: hasNode_inner_segment)
  next
    case False
    then have "hasNode r (folder_at segs i)" using that IH(2) by simp
    then show ?thesis by (rule extends_hasNode [OF extends_inner_segment])
  qed
  ultimately show ?case by (simp add: r_def)
qed

lemma well_formed_path_step:
  assumes "well_formed g"
  shows "well_formed (path_step inc ps g cp)"
proof -
  define segs where "segs = pathSplit cp"
  consider "segs = []" | "length segs = 1" | "2 \<le> length segs"
    by (cases segs) (auto simp: Suc_le_eq)
  then show ?thesis
  proof cases
    case 1
    then show ?thesis using assms by (simp add: path_step_empty segs_def)
  next
    case 2
    have "hasNode g (parent_at segs 0)"
      using assms by (simp add: parent_at_def well_formed_hasNode_root)
    then show ?thesis
      using 2 assms by (simp add: path_step_single segs_def well_formed_last_segment_loop)
  next
    case 3
    define r where "r = foldl (inner_segment segs) g [0..<length segs - 1]"
    have w: "well_formed r" and h: "\<And>i. i < length segs - 1 \<Longrightarrow> hasNode r (folder_at segs i)"
      using well_formed_inner_walk [OF assms, of segs "length segs - 1"]
      by (simp_all add: r_def)
    obtain j where j: "length segs - 1 = Suc j" using 3 by (cases "length segs - 1") auto
    have "hasNode r (parent_at segs (length segs - 1))"
      using h [of j] j by (simp add: parent_at_Suc)
    moreover have "path_step inc ps g cp =
        foldl (last_segment_method inc cp segs (length segs - 1)) r (methods_of ps cp)"
      using 3 by (simp add: path_step_walk segs_def r_def)
    ultimately show ?thesis
      using w by (simp add: well_formed_last_segment_loop)
  qed
qed

lemma well_formed_generateTreeFromPathsV2: "well_formed (generateTreeFromPathsV2 spec inc)"
  unfolding generateTreeFromPathsV2_def Let_def
  by (auto intro!: foldl_preserves [where P = well_formed] well_formed_root_tree
      well_formed_path_step)

lemma extends_generateTreeFromPathsV2_prefix:
  "extends (foldl (path_step inc ps) g ks) (foldl (path_step inc ps) g (ks @ ks'))"
  by (simp add: extends_foldl extends_path_step)

subsection \<open>Every step of the tag strategy keeps the store well formed\<close>

lemma extends_declared_tag_step: "extends g (declared_tag_step tdm g e)"
  unfolding declared_tag_step_def Let_def
  by (auto intro!: extends_then_setNode extends_then_setEdge)

lemma extends_tag_request_step: "extends g (tag_request_step tdm p m g t)"
  unfolding tag_request_step_def Let_def
  by (auto intro!: extends_then_setNode extends_then_setEdge)

lemma extends_untagged_request: "extends g (untagged_request p m g)"
  unfolding untagged_request_def
  by (auto intro!: extends_then_setNode extends_then_setEdge)

lemma extends_tags_method_step: "extends g (tags_method_step inc tdm p g e)"
  unfolding tags_method_step_def Let_def
  by (auto split: option.splits
      intro: extends_foldl extends_tag_request_step extends_untagged_request)

lemma extends_tags_path_step: "extends g (tags_path_step inc tdm g e)"
  unfolding tags_path_step_def
  by (auto intro: extends_foldl extends_tags_method_step)

lemma well_formed_declared_tag_step:
  "well_formed g \<Longrightarrow> well_formed (declared_tag_step tdm g e)"
  unfolding declared_tag_step_def Let_def
  by (auto intro!: well_formed_setEdge well_formed_setNode dest: well_formed_hasNode_root)

lemma well_formed_tag_request_step:
  "well_formed g \<Longrightarrow> well_formed (tag_request_step tdm p m g t)"
  unfolding tag_request_step_def Let_def
  by (auto intro!: well_formed_setEdge well_formed_setNode dest: well_formed_hasNode_root
      simp: hasNode_setEdge)

lemma well_formed_untagged_request:
  "well_formed g \<Longrightarrow> well_formed (untagged_request p m g)"
  unfolding untagged_request_def
  by (auto intro!: well_formed_setEdge well_formed_setNode dest: well_formed_hasNode_root)

lemma well_formed_tags_method_step:
  "well_formed g \<Longrightarrow> well_formed (tags_method_step inc tdm p g e)"
  unfolding tags_method_step_def Let_def
  by (auto split: option.splits
      intro!: foldl_preserves [where P = well_formed] well_formed_tag_request_step
        well_formed_untagged_request)

lemma well_formed_tags_path_step:
  "well_formed g \<Longrightarrow> well_formed (tags_path_step inc tdm g e)"
  unfolding tags_path_step_def
  by (auto intro!: foldl_preserves [where P = well_formed] well_formed_tags_method_step)

lemma well_formed_declared_tag_folders: "well_formed (declared_tag_folders tdm)"
  unfolding declared_tag_folders_def
  by (auto intro!: foldl_preserves [where P = well_formed] well_formed_root_tree
      well_formed_declared_tag_step)

lemma well_formed_generateTreeFromTags: "well_formed (generateTreeFromTags spec inc)"
  unfolding generateTreeFromTags_def Let_def
  by (auto intro!: foldl_preserves [where P = well_formed] well_formed_declared_tag_folders
      well_formed_tags_path_step)

subsection \<open>The webhook pass keeps the store well formed\<close>

lemma extends_webhook_method_step: "extends g (webhook_method_step inc p g e)"
  unfolding webhook_method_step_def Let_def
  by (auto intro!: extends_then_setNode extends_then_setEdge)


lemma well_formed_webhook_method_step:
  "well_formed g \<Longrightarrow> hasNode g webhook_folder_id \<Longrightarrow>
   well_formed (webhook_method_step inc p g e)"
  unfolding webhook_method_step_def Let_def
  by (auto intro!: well_formed_setEdge well_formed_setNode)

lemma well_formed_webhook_step:
  assumes "well_formed g" and "hasNode g webhook_folder_id"
  shows "well_formed (webhook_step inc g e) \<and> hasNode (webhook_step inc g e) webhook_folder_id"
  unfolding webhook_step_def
  by (rule foldl_preserves
        [where P = "\<lambda>s. well_formed s \<and> hasNode s webhook_folder_id"])
     (auto simp: assms well_formed_webhook_method_step
        intro: extends_hasNode [OF extends_webhook_method_step])

lemma well_formed_generateWebhookEndpoints:
  assumes "well_formed g"
  shows "well_formed (generateWebhookEndpoints spec g inc)"
proof (cases "webhooks spec = []")
  case True
  then show ?thesis using assms by (simp add: generateWebhookEndpoints_def)
next
  case False
  define g1 where "g1 = setEdge (setNode g webhook_folder_id webhook_folder_label) root_id
                          webhook_folder_id"
  have "well_formed g1"
    using assms unfolding g1_def
    by (auto intro!: well_formed_setEdge well_formed_setNode dest: well_formed_hasNode_root)
  moreover have "hasNode g1 webhook_folder_id"
    by (simp add: g1_def hasNode_setEdge)
  ultimately have "well_formed (foldl (webhook_step inc) g1 (webhooks spec)) \<and>
                   hasNode (foldl (webhook_step inc) g1 (webhooks spec)) webhook_folder_id"
    by (intro foldl_preserves
          [where P = "\<lambda>s. well_formed s \<and> hasNode s webhook_folder_id"])
       (auto simp: well_formed_webhook_step)
  then show ?thesis
    using False by (simp add: generateWebhookEndpoints_def g1_def)
qed


subsection \<open>Splitting and joining\<close>

lemma split_not_Nil [simp]: "split c s \<noteq> []"
  by (induction s) (auto split: list.splits)

lemma split_free: "x \<in> set (split c s) \<Longrightarrow> c \<notin> set x"
proof (induction s arbitrary: x)
  case Nil
  then show ?case by simp
next
  case (Cons a s)
  show ?case
  proof (cases "a = c")
    case True
    then show ?thesis using Cons by auto
  next
    case False
    obtain w ws where w: "split c s = w # ws" by (cases "split c s") auto
    then have "c \<notin> set w" "\<And>y. y \<in> set ws \<Longrightarrow> c \<notin> set y"
      using Cons.IH by auto
    then show ?thesis using Cons.prems False w by auto
  qed
qed

lemma segs_ok_pathSplit: "segs_ok (pathSplit cp)"
  by (auto simp: segs_ok_def pathSplit_def compact_def list_all_iff dest: split_free)

lemma split_no_separator: "c \<notin> set s \<Longrightarrow> split c s = [s]"
  by (induction s) auto

lemma split_append_separator: "c \<notin> set x \<Longrightarrow> split c (x @ c # rest) = x # split c rest"
  by (induction x) auto

lemma split_join:
  "xs \<noteq> [] \<Longrightarrow> list_all (\<lambda>s. c \<notin> set s) xs \<Longrightarrow> split c (join [c] xs) = xs"
proof (induction "[c]" xs rule: join.induct)
  case 1
  then show ?case by simp
next
  case (2 x)
  then show ?case by (simp add: split_no_separator)
next
  case (3 x y ys)
  then show ?case by (simp add: split_append_separator)
qed

lemma segs_ok_take: "segs_ok segs \<Longrightarrow> 0 < k \<Longrightarrow> segs_ok (take k segs)"
  by (cases k) (auto simp: segs_ok_def list_all_iff dest: in_set_takeD)

lemma join_inject:
  assumes "segs_ok xs" and "segs_ok ys" and "xs \<noteq> []" and "ys \<noteq> []"
    and "join ''/'' xs = join ''/'' ys"
  shows "xs = ys"
proof -
  let ?plain = "list_all (\<lambda>s. s \<noteq> [] \<and> CHR ''/'' \<notin> set s)"
  have plain: "split CHR ''/'' (join ''/'' zs) = zs" if "?plain zs" "zs \<noteq> []" for zs
  proof -
    have "list_all (\<lambda>s. CHR ''/'' \<notin> set s) zs"
      using that(1) by (simp add: list_all_iff)
    then show ?thesis
      using split_join [OF that(2), of "CHR ''/''"] by simp
  qed
  have root: False if "?plain zs" "zs \<noteq> []" "join ''/'' zs = ''/''" for zs
  proof -
    have "split CHR ''/'' (join ''/'' zs) = zs" by (rule plain [OF that(1,2)])
    then have "split CHR ''/'' ''/'' = zs" by (simp only: that(3))
    then have "zs = [Nil, Nil]" by simp
    then show False using that(1) by simp
  qed
  have j: "join ''/'' [''/''] = ''/''" by simp
  show ?thesis
  proof (cases "xs = [''/'']")
    case True
    show ?thesis
    proof (cases "ys = [''/'']")
      case True
      with \<open>xs = [''/'']\<close> show ?thesis by simp
    next
      case False
      then have "?plain ys" using assms(2) by (simp add: segs_ok_def)
      moreover have "join ''/'' ys = ''/''"
        using assms(5) True j by simp
      ultimately show ?thesis using root [of ys] assms(4) by blast
    qed
  next
    case False
    then have px: "?plain xs" using assms(1) by (simp add: segs_ok_def)
    show ?thesis
    proof (cases "ys = [''/'']")
      case True
      then have "join ''/'' xs = ''/''" using assms(5) j by simp
      then show ?thesis using root [OF px assms(3)] by blast
    next
      case False
      then have py: "?plain ys" using assms(2) by (simp add: segs_ok_def)
      have "xs = split CHR ''/'' (join ''/'' xs)"
        by (rule plain [OF px assms(3), symmetric])
      also have "\<dots> = split CHR ''/'' (join ''/'' ys)"
        by (simp only: assms(5))
      also have "\<dots> = ys"
        by (rule plain [OF py assms(4)])
      finally show ?thesis .
    qed
  qed
qed

lemma pathIdentifier_at_determines:
  assumes "segs_ok xs" and "segs_ok ys" and "i < length xs" and "j < length ys"
    and "pathIdentifier_at xs i = pathIdentifier_at ys j"
  shows "take (i + 1) xs = take (j + 1) ys"
proof (rule join_inject)
  show "segs_ok (take (i + 1) xs)" "segs_ok (take (j + 1) ys)"
    using assms(1,2) by (simp_all add: segs_ok_take)
  show "take (i + 1) xs \<noteq> []" "take (j + 1) ys \<noteq> []"
    using assms(3,4) by auto
  show "join ''/'' (take (i + 1) xs) = join ''/'' (take (j + 1) ys)"
    using assms(5) by (simp add: pathIdentifier_at_def)
qed

lemma take_Suc_determines:
  assumes "take (i + 1) xs = take (j + 1) ys" and "i < length xs" and "j < length ys"
  shows "i = j \<and> xs ! i = ys ! j \<and> take i xs = take j ys"
proof -
  have "length (take (i + 1) xs) = length (take (j + 1) ys)" using assms(1) by simp
  then have ij: "i = j" using assms(2,3) by simp
  have "take (i + 1) xs ! i = take (j + 1) ys ! j" using assms(1) ij by simp
  then have "xs ! i = ys ! j" by simp
  moreover have "take i (take (i + 1) xs) = take j (take (j + 1) ys)"
    using assms(1) ij by simp
  then have "take i xs = take j ys" by (simp add: min_def)
  ultimately show ?thesis using ij by simp
qed

lemma folder_at_determines:
  assumes "segs_ok xs" and "segs_ok ys" and "i < length xs" and "j < length ys"
    and "folder_at xs i = folder_at ys j"
  shows "xs ! i = ys ! j \<and> pathIdentifier_at xs i = pathIdentifier_at ys j \<and>
         parent_at xs i = parent_at ys j"
proof -
  have p: "pathIdentifier_at xs i = pathIdentifier_at ys j"
    using assms(5) by (simp add: folder_at_def)
  have d: "i = j \<and> xs ! i = ys ! j \<and> take i xs = take j ys"
    by (rule take_Suc_determines [OF pathIdentifier_at_determines [OF assms(1-4) p] assms(3,4)])
  then have "i = j" and "take i xs = take j ys" by blast+
  then have "parent_at xs i = parent_at ys j"
    by (simp add: parent_at_def)
  with d p show ?thesis by blast
qed

subsection \<open>Records under the path strategy\<close>

lemma no_path_request_ids [simp]:
  "no_path_request root_id" "no_path_request (path_folder_id pid)"
  "\<not> no_path_request (path_request_id pid m)"
  by (simp_all add: no_path_request_def root_id_def path_folder_id_def path_request_id_def)

lemma node_last_segment_method_old:
  assumes "hasNode g v" and "no_path_request v"
  shows "node (last_segment_method inc cp segs i g e) v = node g v"
proof -
  have "v \<noteq> path_request_id (pathIdentifier_at segs i) (fst e)"
    using assms(2) by auto
  then show ?thesis
    using assms(1) by (auto simp: last_segment_method_unfold)
qed

lemma node_path_step_old:
  assumes "hasNode g v" and "no_path_request v"
  shows "node (path_step inc ps g cp) v = node g v"
proof -
  have m: "hasNode (foldl (last_segment_method inc cp segs i) s ms) v \<and>
           node (foldl (last_segment_method inc cp segs i) s ms) v = node g v"
    if "hasNode s v" "node s v = node g v" for s segs i ms
    by (rule foldl_preserves [where P = "\<lambda>s. hasNode s v \<and> node s v = node g v"])
       (auto simp: that node_last_segment_method_old assms(2)
          intro: extends_hasNode [OF extends_last_segment_method])
  have s: "hasNode (segment_step inc ps cp segs s i) v \<and>
           node (segment_step inc ps cp segs s i) v = node g v"
    if "hasNode s v" "node s v = node g v" for s segs i
    using that m [OF that]
    by (auto simp: segment_step_def inner_segment_node_old
        intro: extends_hasNode [OF extends_inner_segment])
  have "hasNode (foldl (segment_step inc ps cp segs) g is) v \<and>
        node (foldl (segment_step inc ps cp segs) g is) v = node g v" for segs "is"
    by (rule foldl_preserves [where P = "\<lambda>s. hasNode s v \<and> node s v = node g v"])
       (auto simp: assms(1) s)
  then show ?thesis
    using m [OF assms(1) refl] by (simp add: path_step_unfold Let_def)
qed

lemma node_path_loop_old:
  assumes "hasNode g v" and "no_path_request v"
  shows "node (foldl (path_step inc ps) g ks) v = node g v"
proof -
  have "hasNode (foldl (path_step inc ps) g ks) v \<and>
        node (foldl (path_step inc ps) g ks) v = node g v"
    by (rule foldl_preserves [where P = "\<lambda>s. hasNode s v \<and> node s v = node g v"])
       (auto simp: assms node_path_step_old intro: extends_hasNode [OF extends_path_step])
  then show ?thesis by simp
qed

lemma hasNode_last_segment_method:
  assumes "hasNode g (parent_at segs i)" and "\<not> skipped inc e"
  shows "hasNode (last_segment_method inc cp segs i g e) v \<longleftrightarrow>
           hasNode g v \<or> v = folder_at segs i \<or>
           v = path_request_id (pathIdentifier_at segs i) (fst e)"
  using assms by (auto simp: last_segment_method_unfold hasNode_setEdge)

lemma node_last_segment_method:
  assumes "\<not> skipped inc e"
  shows "node (last_segment_method inc cp segs i g e) v =
           (if v = path_request_id (pathIdentifier_at segs i) (fst e)
            then Some (path_request_label cp (fst e) (pathIdentifier_at segs i))
            else if v = folder_at segs i \<and> \<not> hasNode g (folder_at segs i)
            then Some (path_folder_label (segs ! i) (pathIdentifier_at segs i))
            else node g v)"
  using assms by (auto simp: last_segment_method_unfold)

lemma folder_at_not_request [simp]: "folder_at segs i \<noteq> path_request_id pid m"
  by (simp add: folder_at_def)

lemma hasEdge_last_segment_method_new:
  assumes "\<not> skipped inc e" and "\<not> hasNode g (folder_at segs i)"
  shows "hasEdge (last_segment_method inc cp segs i g e) (parent_at segs i) (folder_at segs i)"
  using assms by (simp add: last_segment_method_unfold)

lemma folder_exact_last_segment_method:
  assumes "folder_exact g" and "hasNode g (parent_at segs i)"
    and "segs_ok segs" and "i < length segs"
  shows "folder_exact (last_segment_method inc cp segs i g e)"
proof (cases "skipped inc e")
  case True
  then show ?thesis using assms by (simp add: last_segment_method_skipped)
next
  case False
  define r where "r = last_segment_method inc cp segs i g e"
  have "node r (folder_at xs j) = Some (path_folder_label (xs ! j) (pathIdentifier_at xs j)) \<and>
        hasEdge r (parent_at xs j) (folder_at xs j)"
    if ok: "segs_ok xs" and j: "j < length xs" and h: "hasNode r (folder_at xs j)" for xs j
  proof (cases "hasNode g (folder_at xs j)")
    case True
    then have "node g (folder_at xs j) = Some (path_folder_label (xs ! j) (pathIdentifier_at xs j))"
      and "hasEdge g (parent_at xs j) (folder_at xs j)"
      using assms(1) ok j by (simp_all add: folder_exact_def)
    moreover have "node r (folder_at xs j) = node g (folder_at xs j)"
      unfolding r_def using True by (simp add: node_last_segment_method_old folder_at_def)
    moreover have "extends g r"
      unfolding r_def by (rule extends_last_segment_method)
    ultimately show ?thesis
      by (auto dest: extends_hasEdge)
  next
    case new: False
    then have eq: "folder_at xs j = folder_at segs i"
      using h unfolding r_def
      by (simp add: hasNode_last_segment_method [OF assms(2) False])
    have d: "xs ! j = segs ! i" "pathIdentifier_at xs j = pathIdentifier_at segs i"
      "parent_at xs j = parent_at segs i"
      using folder_at_determines [OF ok assms(3) j assms(4) eq] by simp_all
    have fresh: "\<not> hasNode g (folder_at segs i)" using new eq by simp
    show ?thesis
      unfolding r_def d eq
      using fresh hasEdge_last_segment_method_new [OF False fresh]
      by (simp add: node_last_segment_method [OF False])
  qed
  then show ?thesis
    unfolding folder_exact_def r_def by blast
qed

lemma folder_exact_last_segment_loop:
  assumes "folder_exact g" and "hasNode g (parent_at segs i)"
    and "segs_ok segs" and "i < length segs"
  shows "folder_exact (foldl (last_segment_method inc cp segs i) g ms)"
proof -
  have "folder_exact (foldl (last_segment_method inc cp segs i) g ms) \<and>
        hasNode (foldl (last_segment_method inc cp segs i) g ms) (parent_at segs i)"
    by (rule foldl_preserves
          [where P = "\<lambda>s. folder_exact s \<and> hasNode s (parent_at segs i)"])
       (auto simp: assms folder_exact_last_segment_method
          intro: extends_hasNode [OF extends_last_segment_method])
  then show ?thesis by simp
qed

lemma hasNode_inner_segment_iff:
  assumes "hasNode g (parent_at segs i)"
  shows "hasNode (inner_segment segs g i) v \<longleftrightarrow> hasNode g v \<or> v = folder_at segs i"
  using inner_segment_nodes [OF assms] by (auto simp: hasNode_ids)

lemma hasEdge_inner_segment: "hasEdge (inner_segment segs g i) (parent_at segs i) (folder_at segs i)"
  using inner_segment_edges [of segs g i] by (simp add: hasEdge_def)

lemma folder_exact_inner_segment:
  assumes "folder_exact g" and "hasNode g (parent_at segs i)"
    and "segs_ok segs" and "i < length segs"
  shows "folder_exact (inner_segment segs g i)"
proof -
  define r where "r = inner_segment segs g i"
  have "node r (folder_at xs j) = Some (path_folder_label (xs ! j) (pathIdentifier_at xs j)) \<and>
        hasEdge r (parent_at xs j) (folder_at xs j)"
    if ok: "segs_ok xs" and j: "j < length xs" and h: "hasNode r (folder_at xs j)" for xs j
  proof (cases "hasNode g (folder_at xs j)")
    case True
    then have "node g (folder_at xs j) = Some (path_folder_label (xs ! j) (pathIdentifier_at xs j))"
      and "hasEdge g (parent_at xs j) (folder_at xs j)"
      using assms(1) ok j by (simp_all add: folder_exact_def)
    moreover have "node r (folder_at xs j) = node g (folder_at xs j)"
      unfolding r_def using True by (rule inner_segment_node_old)
    moreover have "extends g r"
      unfolding r_def by (rule extends_inner_segment)
    ultimately show ?thesis
      by (auto dest: extends_hasEdge)
  next
    case new: False
    then have eq: "folder_at xs j = folder_at segs i"
      using h unfolding r_def by (simp add: hasNode_inner_segment_iff [OF assms(2)])
    have d: "xs ! j = segs ! i" "pathIdentifier_at xs j = pathIdentifier_at segs i"
      "parent_at xs j = parent_at segs i"
      using folder_at_determines [OF ok assms(3) j assms(4) eq] by simp_all
    have fresh: "\<not> hasNode g (folder_at segs i)" using new eq by simp
    show ?thesis
      unfolding r_def d eq
      using inner_segment_node_new [OF fresh] hasEdge_inner_segment by simp
  qed
  then show ?thesis
    unfolding folder_exact_def r_def by blast
qed

lemma folder_exact_inner_walk:
  assumes "folder_exact g" and "hasNode g root_id" and "segs_ok segs" and "k \<le> length segs"
  shows "folder_exact (foldl (inner_segment segs) g [0..<k]) \<and>
         hasNode (foldl (inner_segment segs) g [0..<k]) root_id \<and>
         (\<forall>i<k. hasNode (foldl (inner_segment segs) g [0..<k]) (folder_at segs i))"
  using assms(4)
proof (induction k)
  case 0
  then show ?case using assms by simp
next
  case (Suc k)
  define r where "r = foldl (inner_segment segs) g [0..<k]"
  have IH: "folder_exact r" "hasNode r root_id" "\<And>i. i < k \<Longrightarrow> hasNode r (folder_at segs i)"
    using Suc by (simp_all add: r_def)
  have par: "hasNode r (parent_at segs k)"
  proof (cases k)
    case 0
    then show ?thesis using IH(2) by (simp add: parent_at_def)
  next
    case (Suc j)
    then show ?thesis using IH(3) [of j] by (simp add: parent_at_Suc)
  qed
  have "folder_exact (inner_segment segs r k)"
    using IH(1) par assms(3) Suc.prems by (intro folder_exact_inner_segment) simp_all
  moreover have "hasNode (inner_segment segs r k) v" if "hasNode r v" for v
    using that by (rule extends_hasNode [OF extends_inner_segment])
  ultimately show ?case
    using IH(2,3) hasNode_inner_segment [of segs r k]
    by (auto simp: r_def less_Suc_eq)
qed

lemma folder_exact_path_step:
  assumes "folder_exact g" and "hasNode g root_id"
  shows "folder_exact (path_step inc ps g cp)"
proof -
  define segs where "segs = pathSplit cp"
  have ok: "segs_ok segs" by (simp add: segs_def segs_ok_pathSplit)
  consider "segs = []" | "length segs = 1" | "2 \<le> length segs"
    by (cases segs) (auto simp: Suc_le_eq)
  then show ?thesis
  proof cases
    case 1
    then show ?thesis using assms by (simp add: path_step_empty segs_def)
  next
    case 2
    have "hasNode g (parent_at segs 0)"
      using assms by (simp add: parent_at_def)
    moreover have "path_step inc ps g cp =
        foldl (last_segment_method inc cp segs 0) g (methods_of ps cp)"
      using 2 by (simp add: path_step_single segs_def)
    ultimately show ?thesis
      using 2 assms ok by (simp add: folder_exact_last_segment_loop)
  next
    case 3
    define r where "r = foldl (inner_segment segs) g [0..<length segs - 1]"
    have w: "folder_exact r" and h: "\<And>i. i < length segs - 1 \<Longrightarrow> hasNode r (folder_at segs i)"
      using folder_exact_inner_walk [OF assms ok, of "length segs - 1"]
      by (simp_all add: r_def)
    obtain j where j: "length segs - 1 = Suc j" using 3 by (cases "length segs - 1") auto
    have "hasNode r (parent_at segs (length segs - 1))"
      using h [of j] j by (simp add: parent_at_Suc)
    moreover have "path_step inc ps g cp =
        foldl (last_segment_method inc cp segs (length segs - 1)) r (methods_of ps cp)"
      using 3 by (simp add: path_step_walk segs_def r_def)
    moreover have "length segs - 1 < length segs" using 3 by simp
    ultimately show ?thesis
      using w ok by (simp add: folder_exact_last_segment_loop)
  qed
qed

lemma folder_exact_root_tree: "folder_exact root_tree"
  by (simp add: folder_exact_def folder_at_def)

lemma folder_exact_path_loop:
  assumes "folder_exact g" and "hasNode g root_id"
  shows "folder_exact (foldl (path_step inc ps) g ks)"
proof -
  have "folder_exact (foldl (path_step inc ps) g ks) \<and>
        hasNode (foldl (path_step inc ps) g ks) root_id"
    by (rule foldl_preserves [where P = "\<lambda>s. folder_exact s \<and> hasNode s root_id"])
       (auto simp: assms folder_exact_path_step intro: extends_hasNode [OF extends_path_step])
  then show ?thesis by simp
qed

lemma folder_exact_generateTreeFromPathsV2: "folder_exact (generateTreeFromPathsV2 spec inc)"
  by (simp add: generateTreeFromPathsV2_def Let_def folder_exact_root_tree
      folder_exact_path_loop)

subsection \<open>Folders that a declared path is bound to create\<close>

lemma hasNode_inner_walk:
  assumes "i < k"
  shows "hasNode (foldl (inner_segment segs) g [0..<k]) (folder_at segs i)"
proof (rule foldl_establishes [where x = i])
  show "i \<in> set [0..<k]" using assms by simp
  show "hasNode (inner_segment segs s i) (folder_at segs i)" for s
    by (rule hasNode_inner_segment)
  show "hasNode s (folder_at segs i) \<Longrightarrow> hasNode (inner_segment segs s y) (folder_at segs i)"
    for s y
    by (rule extends_hasNode [OF extends_inner_segment])
qed

lemma hasNode_last_segment_method_folder:
  "\<not> skipped inc e \<Longrightarrow> hasNode (last_segment_method inc cp segs i g e) (folder_at segs i)"
  by (simp add: last_segment_method_unfold hasNode_setEdge)

lemma hasNode_last_segment_loop_folder:
  assumes "\<not> list_all (skipped inc) ms"
  shows "hasNode (foldl (last_segment_method inc cp segs i) g ms) (folder_at segs i)"
proof -
  from assms obtain e where e: "e \<in> set ms" "\<not> skipped inc e"
    by (auto simp: list_all_iff)
  show ?thesis
  proof (rule foldl_establishes [where x = e])
    show "e \<in> set ms" by (rule e(1))
    show "hasNode (last_segment_method inc cp segs i s e) (folder_at segs i)" for s
      using e(2) by (rule hasNode_last_segment_method_folder)
    show "hasNode s (folder_at segs i) \<Longrightarrow>
          hasNode (last_segment_method inc cp segs i s y) (folder_at segs i)" for s y
      by (rule extends_hasNode [OF extends_last_segment_method])
  qed
qed

lemma path_step_creates_folder:
  assumes "i < length (pathSplit cp)"
    and "i + 1 < length (pathSplit cp) \<or> \<not> list_all (skipped inc) (methods_of ps cp)"
  shows "hasNode (path_step inc ps g cp) (folder_at (pathSplit cp) i)"
proof -
  define segs where "segs = pathSplit cp"
  show ?thesis
  proof (cases "i + 1 < length segs")
    case True
    then have two: "2 \<le> length (pathSplit cp)" by (simp add: segs_def)
    have "hasNode (foldl (inner_segment segs) g [0..<length segs - 1]) (folder_at segs i)"
      using True by (intro hasNode_inner_walk) simp
    then have "hasNode (foldl (last_segment_method inc cp segs (length segs - 1))
                 (foldl (inner_segment segs) g [0..<length segs - 1]) (methods_of ps cp))
               (folder_at segs i)"
      by (rule extends_hasNode [OF extends_foldl, rotated])
         (rule extends_last_segment_method)
    then show ?thesis
      by (simp add: path_step_walk [OF two] segs_def)
  next
    case False
    then have last: "i = length segs - 1" using assms(1) by (simp add: segs_def)
    have ns: "\<not> list_all (skipped inc) (methods_of ps cp)"
      using assms(2) False by (simp add: segs_def)
    show ?thesis
    proof (cases "length segs = 1")
      case True
      then show ?thesis
        using hasNode_last_segment_loop_folder [OF ns] last
        by (simp add: path_step_single segs_def)
    next
      case False
      then have two: "2 \<le> length (pathSplit cp)"
        using assms(1) by (simp add: segs_def)
      show ?thesis
        using hasNode_last_segment_loop_folder [OF ns] last
        by (simp add: path_step_walk [OF two] segs_def)
    qed
  qed
qed

lemma declared_path_folder:
  assumes "cp \<in> fst ` set (paths spec)" and "i < length (pathSplit cp)"
    and "i + 1 < length (pathSplit cp) \<or>
         \<not> list_all (skipped inc) (methods_of (paths spec) cp)"
  shows "hasNode (generateTreeFromPathsV2 spec inc) (folder_at (pathSplit cp) i)"
proof -
  have ne: "map fst (paths spec) \<noteq> []" using assms(1) by auto
  have "hasNode (foldl (path_step inc (paths spec)) root_tree (map fst (paths spec)))
          (folder_at (pathSplit cp) i)"
  proof (rule foldl_establishes [where x = cp])
    show "cp \<in> set (map fst (paths spec))" using assms(1) by simp
    show "hasNode (path_step inc (paths spec) s cp) (folder_at (pathSplit cp) i)" for s
      using assms(2,3) by (rule path_step_creates_folder)
    show "hasNode s (folder_at (pathSplit cp) i) \<Longrightarrow>
          hasNode (path_step inc (paths spec) s y) (folder_at (pathSplit cp) i)" for s y
      by (rule extends_hasNode [OF extends_path_step])
  qed
  then show ?thesis
    using ne by (simp add: generateTreeFromPathsV2_def Let_def)
qed

lemma count_list_le_one: "distinct xs \<Longrightarrow> count_list xs x \<le> 1"
  by (induction xs) auto

lemma folder_at_cong:
  "take (i + 1) xs = take (i + 1) ys \<Longrightarrow> folder_at xs i = folder_at ys i"
  by (simp add: folder_at_def pathIdentifier_at_def)

subsection \<open>Identifiers of the base strategies and of the webhook pass\<close>

lemma base_id_simps [simp]:
  "base_id root_id" "base_id (path_folder_id p)" "base_id (path_request_id p m)"
  "base_id (tag_folder_id t)" "base_id (tag_request_id t p m)"
  "base_id (untagged_request_id p m)"
  "\<not> base_id webhook_folder_id" "\<not> base_id (webhook_request_id p m)"
  by (simp_all add: base_id_def root_id_def path_folder_id_def path_request_id_def
      tag_folder_id_def tag_request_id_def untagged_request_id_def webhook_folder_id_def
      webhook_request_id_def PATH_WEBHOOK_def)

lemma folder_at_base [simp]: "base_id (folder_at segs i)" "base_id (parent_at segs i)"
  by (simp_all add: folder_at_def parent_at_def)

lemma base_ids_iff: "base_ids g \<longleftrightarrow> (\<forall>v. hasNode g v \<longrightarrow> base_id v)"
  by (auto simp: base_ids_def list_all_iff hasNode_ids)

lemma base_ids_setNode: "base_ids g \<Longrightarrow> base_id v \<Longrightarrow> base_ids (setNode g v l)"
  by (auto simp: base_ids_iff)

lemma base_ids_setEdge: "base_ids g \<Longrightarrow> base_id v \<Longrightarrow> base_id w \<Longrightarrow> base_ids (setEdge g v w)"
  by (auto simp: base_ids_iff hasNode_setEdge)

lemma base_ids_root_tree: "base_ids root_tree"
  by (simp add: base_ids_iff)

lemma base_ids_last_segment_method:
  "base_ids g \<Longrightarrow> base_ids (last_segment_method inc cp segs i g e)"
  unfolding last_segment_method_unfold
  by (auto intro!: base_ids_setEdge base_ids_setNode)

lemma base_ids_inner_segment: "base_ids g \<Longrightarrow> base_ids (inner_segment segs g i)"
  unfolding inner_segment_unfold Let_def
  by (auto intro!: base_ids_setEdge base_ids_setNode)

lemma base_ids_path_step: "base_ids g \<Longrightarrow> base_ids (path_step inc ps g cp)"
  unfolding path_step_unfold segment_step_def Let_def
  by (auto intro!: foldl_preserves [where P = base_ids] base_ids_last_segment_method
      base_ids_inner_segment)

lemma base_ids_generateTreeFromPathsV2: "base_ids (generateTreeFromPathsV2 spec inc)"
  unfolding generateTreeFromPathsV2_def Let_def
  by (auto intro!: foldl_preserves [where P = base_ids] base_ids_root_tree base_ids_path_step)

lemma base_ids_declared_tag_step: "base_ids g \<Longrightarrow> base_ids (declared_tag_step tdm g e)"
  unfolding declared_tag_step_def Let_def
  by (auto intro!: base_ids_setEdge base_ids_setNode)

lemma base_ids_tag_request_step: "base_ids g \<Longrightarrow> base_ids (tag_request_step tdm p m g t)"
  unfolding tag_request_step_def Let_def
  by (auto intro!: base_ids_setEdge base_ids_setNode)

lemma base_ids_untagged_request: "base_ids g \<Longrightarrow> base_ids (untagged_request p m g)"
  unfolding untagged_request_def
  by (auto intro!: base_ids_setEdge base_ids_setNode)

lemma base_ids_tags_path_step: "base_ids g \<Longrightarrow> base_ids (tags_path_step inc tdm g e)"
  unfolding tags_path_step_def tags_method_step_def Let_def
  by (auto split: option.splits
      intro!: foldl_preserves [where P = base_ids] base_ids_tag_request_step
        base_ids_untagged_request)

lemma base_ids_generateTreeFromTags: "base_ids (generateTreeFromTags spec inc)"
  unfolding generateTreeFromTags_def declared_tag_folders_def Let_def
  by (auto intro!: foldl_preserves [where P = base_ids] base_ids_root_tree
      base_ids_tags_path_step base_ids_declared_tag_step)

lemma webhook_request_not_folder [simp]:
  "webhook_request_id p m \<noteq> webhook_folder_id" "webhook_folder_id \<noteq> webhook_request_id p m"
proof -
  have "CHR '':'' \<in> set (p @ '':'' @ m)" by simp
  moreover have "CHR '':'' \<notin> set ''folder''" by simp
  ultimately have "p @ '':'' @ m \<noteq> ''folder''" by metis
  then show "webhook_request_id p m \<noteq> webhook_folder_id"
    "webhook_folder_id \<noteq> webhook_request_id p m"
    by (auto simp: webhook_request_id_def webhook_folder_id_def)
qed

lemma webhook_ids_not_root [simp]:
  "webhook_folder_id \<noteq> root_id" "webhook_request_id p m \<noteq> root_id"
  by (simp_all add: webhook_folder_id_def webhook_request_id_def PATH_WEBHOOK_def root_id_def)

subsection \<open>The webhook pass as one loop over the kept operations\<close>

lemma webhook_method_loop:
  "foldl (webhook_method_step inc p) g ms =
   foldl webhook_write g
     (map (\<lambda>e. (p, fst e)) (filter (\<lambda>e. \<not> (\<not> inc \<and> deprecated (snd e))) ms))"
  by (induction ms arbitrary: g)
     (simp_all add: webhook_method_step_def webhook_write_def Let_def)

lemma webhook_loop:
  "foldl (webhook_step inc) g ws = foldl webhook_write g (webhook_operations inc ws)"
  by (induction ws arbitrary: g)
     (simp_all add: webhook_step_def webhook_method_loop webhook_operations_def)

lemma generateWebhookEndpoints_unfold:
  "generateWebhookEndpoints spec g inc =
     (if webhooks spec = [] then g
      else foldl webhook_write
             (setEdge (setNode g webhook_folder_id webhook_folder_label) root_id
                webhook_folder_id)
             (webhook_operations inc (webhooks spec)))"
  by (simp add: generateWebhookEndpoints_def webhook_loop webhook_operations_def)

lemma webhook_write_sets:
  assumes "hasNode g webhook_folder_id"
  shows "set (node_ids (foldl webhook_write g ops)) =
           set (node_ids g) \<union> (\<lambda>pm. webhook_request_id (fst pm) (snd pm)) ` set ops \<and>
         set (edges (foldl webhook_write g ops)) =
           set (edges g) \<union>
           (\<lambda>pm. (webhook_folder_id, webhook_request_id (fst pm) (snd pm))) ` set ops"
  using assms
proof (induction ops arbitrary: g)
  case Nil
  then show ?case by simp
next
  case (Cons pm ops)
  define g' where "g' = webhook_write g pm"
  have h: "hasNode g' webhook_folder_id"
    using Cons.prems by (simp add: g'_def webhook_write_def hasNode_setEdge)
  have n: "set (node_ids g') = insert (webhook_request_id (fst pm) (snd pm)) (set (node_ids g))"
    using Cons.prems
    by (auto simp: g'_def webhook_write_def hasNode_ids [symmetric] hasNode_setEdge)
  have e: "set (edges g') =
           insert (webhook_folder_id, webhook_request_id (fst pm) (snd pm)) (set (edges g))"
    by (auto simp: g'_def webhook_write_def edges_setEdge hasEdge_def)
  show ?case
    using Cons.IH [OF h] n e by (auto simp: g'_def)
qed

lemma webhook_write_node_other:
  "v \<notin> (\<lambda>pm. webhook_request_id (fst pm) (snd pm)) ` set ops \<Longrightarrow>
   node (foldl webhook_write g ops) v = node g v"
  by (induction ops arbitrary: g) (auto simp: webhook_write_def)

lemma webhook_write_node_request:
  "pm \<in> set ops \<Longrightarrow>
   \<exists>l. node (foldl webhook_write g ops) (webhook_request_id (fst pm) (snd pm)) = Some l \<and>
       ntype l = ''webhook~request''"
proof (rule foldl_establishes [where x = pm])
  show "\<exists>l. node (webhook_write s pm) (webhook_request_id (fst pm) (snd pm)) = Some l \<and>
            ntype l = ''webhook~request''" for s
    by (simp add: webhook_write_def)
  show "\<exists>l. node (webhook_write s y) (webhook_request_id (fst pm) (snd pm)) = Some l \<and>
            ntype l = ''webhook~request''"
    if "\<exists>l. node s (webhook_request_id (fst pm) (snd pm)) = Some l \<and>
            ntype l = ''webhook~request''" for s y
    using that by (auto simp: webhook_write_def)
qed

lemma webhook_write_lists:
  assumes "hasNode g webhook_folder_id" and "closed_edges g"
    and "distinct (map (\<lambda>pm. webhook_request_id (fst pm) (snd pm)) ops)"
    and "\<forall>pm\<in>set ops. \<not> hasNode g (webhook_request_id (fst pm) (snd pm))"
  shows "nodes (foldl webhook_write g ops) =
           nodes g @ map (\<lambda>pm. (webhook_request_id (fst pm) (snd pm),
                                 Some (webhook_request_label (fst pm) (snd pm)))) ops \<and>
         edges (foldl webhook_write g ops) =
           edges g @ map (\<lambda>pm. (webhook_folder_id, webhook_request_id (fst pm) (snd pm))) ops"
  using assms
proof (induction ops arbitrary: g)
  case Nil
  then show ?case by simp
next
  case (Cons pm ops)
  define r where "r = webhook_request_id (fst pm) (snd pm)"
  define g' where "g' = webhook_write g pm"
  have fresh: "\<not> hasNode g r" using Cons.prems(4) by (simp add: r_def)
  then have noedge: "\<not> hasEdge g webhook_folder_id r"
    using closed_edges_hasNode [OF Cons.prems(2)] by blast
  have n: "nodes g' = nodes g @ [(r, Some (webhook_request_label (fst pm) (snd pm)))]"
    using fresh Cons.prems(1)
    by (simp add: g'_def webhook_write_def r_def [symmetric] nodes_setEdge_present
        nodes_setNode_new)
  have e: "edges g' = edges g @ [(webhook_folder_id, r)]"
    using noedge by (simp add: g'_def webhook_write_def r_def [symmetric] edges_setEdge)
  have h: "hasNode g' webhook_folder_id"
    using Cons.prems(1) by (simp add: g'_def webhook_write_def hasNode_setEdge)
  have c: "closed_edges g'"
    using Cons.prems(1,2) n e
    by (auto simp: closed_edges_def hasNode_def list_all_iff)
  have f: "\<forall>x\<in>set ops. \<not> hasNode g' (webhook_request_id (fst x) (snd x))"
  proof
    fix x assume x: "x \<in> set ops"
    then have "webhook_request_id (fst x) (snd x) \<noteq> r"
      using Cons.prems(3) by (auto simp: r_def image_iff)
    moreover have "\<not> hasNode g (webhook_request_id (fst x) (snd x))"
      using Cons.prems(4) x by simp
    ultimately show "\<not> hasNode g' (webhook_request_id (fst x) (snd x))"
      using n by (auto simp: hasNode_def)
  qed
  have d: "distinct (map (\<lambda>pm. webhook_request_id (fst pm) (snd pm)) ops)"
    using Cons.prems(3) by simp
  show ?case
    using Cons.IH [OF h c d f] n e by (simp add: g'_def r_def)
qed

subsection \<open>Distinct request identifiers of the webhook pass\<close>

lemma prefix_sep_inject:
  "c \<notin> set xs \<Longrightarrow> c \<notin> set ys \<Longrightarrow> xs @ c # a = ys @ c # b \<Longrightarrow> xs = ys \<and> a = b"
proof (induction xs arbitrary: ys)
  case Nil
  then show ?case by (cases ys) auto
next
  case (Cons x xs)
  then show ?case by (cases ys) auto
qed

lemma append_sep_inject:
  assumes "c \<notin> set m" and "c \<notin> set m'" and "p @ c # m = p' @ c # m'"
  shows "p = p' \<and> m = m'"
proof -
  have "rev (p @ c # m) = rev (p' @ c # m')" using assms(3) by simp
  then have "rev m @ c # rev p = rev m' @ c # rev p'" by simp
  moreover have "c \<notin> set (rev m)" "c \<notin> set (rev m')" using assms(1,2) by simp_all
  ultimately have "rev m = rev m' \<and> rev p = rev p'"
    by (rule prefix_sep_inject [rotated 2])
  then show ?thesis by simp
qed

lemma webhook_request_id_inject:
  assumes "CHR '':'' \<notin> set m" and "CHR '':'' \<notin> set m'"
    and "webhook_request_id p m = webhook_request_id p' m'"
  shows "p = p' \<and> m = m'"
  using assms append_sep_inject [of "CHR '':''" m m' p p']
  by (simp add: webhook_request_id_def)

lemma webhook_operations_mem:
  assumes "pm \<in> set (webhook_operations inc ws)"
  shows "\<exists>w\<in>set ws. fst pm = fst w \<and> snd pm \<in> fst ` set (snd w)"
proof -
  from assms obtain w e where "w \<in> set ws" "e \<in> set (snd w)" "pm = (fst w, fst e)"
    by (auto simp: webhook_operations_def)
  then show ?thesis by force
qed

lemma distinct_webhook_operations:
  assumes "distinct (map fst ws)" and "\<forall>w\<in>set ws. distinct (map fst (snd w))"
  shows "distinct (webhook_operations inc ws)"
  using assms
proof (induction ws)
  case Nil
  then show ?case by (simp add: webhook_operations_def)
next
  case (Cons w ws)
  define kept where "kept = filter (\<lambda>e. \<not> (\<not> inc \<and> deprecated (snd e))) (snd w)"
  have split: "webhook_operations inc (w # ws) =
               map (Pair (fst w)) (map fst kept) @ webhook_operations inc ws"
    by (simp add: webhook_operations_def kept_def comp_def)
  have "distinct (map fst kept)"
    using Cons.prems(2) by (simp add: kept_def distinct_map_filter)
  then have a: "distinct (map (Pair (fst w)) (map fst kept))"
    by (simp add: distinct_map inj_on_def del: map_map)
  have b: "distinct (webhook_operations inc ws)"
    using Cons by simp
  have c: "pm \<notin> set (webhook_operations inc ws)" if "pm \<in> set (map (Pair (fst w)) (map fst kept))"
    for pm
  proof
    assume "pm \<in> set (webhook_operations inc ws)"
    then obtain w' where "w' \<in> set ws" "fst pm = fst w'"
      using webhook_operations_mem by blast
    moreover have "fst pm = fst w" using that by auto
    ultimately show False using Cons.prems(1) by force
  qed
  show ?case
    unfolding split using a b c by (simp only: distinct_append) blast
qed

lemma distinct_webhook_request_ids:
  assumes "distinct (map fst ws)"
    and "\<forall>w\<in>set ws. distinct (map fst (snd w)) \<and> (\<forall>e\<in>set (snd w). CHR '':'' \<notin> set (fst e))"
  shows "distinct (webhook_request_ids inc ws)"
proof -
  have d: "distinct (webhook_operations inc ws)"
    using assms by (intro distinct_webhook_operations) auto
  have free: "CHR '':'' \<notin> set (snd pm)" if "pm \<in> set (webhook_operations inc ws)" for pm
  proof -
    from webhook_operations_mem [OF that] obtain w e
      where "w \<in> set ws" "e \<in> set (snd w)" "snd pm = fst e" by auto
    then show ?thesis using assms(2) by auto
  qed
  have "inj_on (\<lambda>pm. webhook_request_id (fst pm) (snd pm)) (set (webhook_operations inc ws))"
  proof (rule inj_onI)
    fix x y
    assume x: "x \<in> set (webhook_operations inc ws)" and y: "y \<in> set (webhook_operations inc ws)"
      and eq: "webhook_request_id (fst x) (snd x) = webhook_request_id (fst y) (snd y)"
    show "x = y"
      using webhook_request_id_inject [OF free [OF x] free [OF y] eq]
      by (simp add: prod_eq_iff)
  qed
  with d show ?thesis
    by (simp add: webhook_request_ids_def distinct_map)
qed

lemma webhook_folder_first:
  assumes "well_formed g" and "base_ids g"
  shows "nodes (setEdge (setNode g webhook_folder_id webhook_folder_label) root_id
                  webhook_folder_id) =
           nodes g @ [(webhook_folder_id, Some webhook_folder_label)] \<and>
         edges (setEdge (setNode g webhook_folder_id webhook_folder_label) root_id
                  webhook_folder_id) =
           edges g @ [(root_id, webhook_folder_id)]"
proof -
  have fresh: "\<not> hasNode g webhook_folder_id"
    using assms(2) by (auto simp: base_ids_iff)
  have c: "closed_edges g" and r: "hasNode g root_id"
    using assms(1) by (simp_all add: well_formed_def)
  have noedge: "\<not> hasEdge g root_id webhook_folder_id"
    using closed_edges_hasNode [OF c] fresh by blast
  show ?thesis
    using fresh r noedge by (simp add: nodes_setEdge_present nodes_setNode_new edges_setEdge)
qed

subsection \<open>What stays fixed while a tree is built\<close>

lemma generateTreeFromPathsV2_loop:
  "generateTreeFromPathsV2 spec inc =
     foldl (path_step inc (paths spec)) root_tree (map fst (paths spec))"
  by (simp add: generateTreeFromPathsV2_def Let_def)

lemma extends_webhook_write: "extends g (webhook_write g pm)"
  unfolding webhook_write_def
  by (auto intro!: extends_then_setNode extends_then_setEdge)

lemma extends_generateWebhookEndpoints: "extends g (generateWebhookEndpoints spec g inc)"
  unfolding generateWebhookEndpoints_unfold
  by (auto intro!: extends_trans [OF _ extends_foldl] extends_webhook_write
      extends_then_setNode extends_then_setEdge)

lemma webhook_pass_keeps_base_record:
  assumes "base_ids base" and "hasNode base v"
  shows "node (generateWebhookEndpoints spec base inc) v = node base v"
proof -
  have b: "base_id v" using assms by (simp add: base_ids_iff)
  then have "v \<notin> (\<lambda>pm. webhook_request_id (fst pm) (snd pm)) ` set ops" for ops
    by auto
  moreover have "v \<noteq> webhook_folder_id" using b by auto
  ultimately show ?thesis
    by (simp add: generateWebhookEndpoints_unfold webhook_write_node_other)
qed

lemma node_root_tag_steps [simp]:
  "node (declared_tag_step tdm g e) root_id = node g root_id"
  "node (tag_request_step tdm p m g t) root_id = node g root_id"
  "node (untagged_request p m g) root_id = node g root_id"
  by (simp_all add: declared_tag_step_def tag_request_step_def untagged_request_def Let_def
      tag_request_id_def untagged_request_id_def root_id_def tag_folder_id_def)

lemma node_root_tags_path_step: "node (tags_path_step inc tdm g e) root_id = node g root_id"
proof -
  have t: "node (foldl (tag_request_step tdm p m) s ts) root_id = node s root_id" for p m s ts
    by (induction ts arbitrary: s) simp_all
  have "node (tags_method_step inc tdm p s x) root_id = node s root_id" for p s x
    by (simp add: tags_method_step_def Let_def t split: option.splits)
  then have "node (foldl (tags_method_step inc tdm p) s ms) root_id = node s root_id" for p s ms
    by (induction ms arbitrary: s) simp_all
  then show ?thesis by (simp add: tags_path_step_def)
qed

lemma node_root_generateTreeFromTags:
  "node (generateTreeFromTags spec inc) root_id = Some root_label"
proof -
  have d: "node (foldl (declared_tag_step tdm) s xs) root_id = node s root_id" for tdm s xs
    by (induction xs arbitrary: s) simp_all
  have p: "node (foldl (tags_path_step inc tdm) s ps) root_id = node s root_id" for tdm s ps
    by (induction ps arbitrary: s) (simp_all add: node_root_tags_path_step)
  show ?thesis
    by (simp add: generateTreeFromTags_def Let_def declared_tag_folders_def p d node_root_tree)
qed

lemma node_root_generateTreeFromPathsV2:
  "node (generateTreeFromPathsV2 spec inc) root_id = Some root_label"
  by (simp add: generateTreeFromPathsV2_loop node_path_loop_old node_root_tree)

lemma kept_or_request_tags_loop:
  "kept_or_request v l g \<Longrightarrow> kept_or_request v l (foldl (tags_path_step inc tdm) g ps)"
  by (rule foldl_preserves [where P = "kept_or_request v l"])
     (simp_all add: kept_or_request_tags_path_step)

lemma kept_or_request_webhooks:
  assumes "base_ids base" and "kept_or_request v l base"
  shows "kept_or_request v l (generateWebhookEndpoints spec base inc)"
  using assms(2)
    webhook_pass_keeps_base_record [OF assms(1) kept_or_request_hasNode [OF assms(2)], of spec inc]
  by (simp add: kept_or_request_def)

subsection \<open>Requests of a tagged operation\<close>

lemma tag_request_id_inject_tag:
  "tag_request_id a p m = tag_request_id b p m \<longleftrightarrow> a = b"
  by (simp add: tag_request_id_def)

lemma tag_request_not_folder [simp]:
  "tag_folder_id t \<noteq> tag_request_id t p m" "tag_request_id t p m \<noteq> tag_folder_id t"
  by (simp_all add: tag_folder_id_def tag_request_id_def)









subsection \<open>Insertion order\<close>

lemma grows_iff:
  "grows g g' \<longleftrightarrow> (\<exists>ns es. node_ids g' = node_ids g @ ns \<and> edges g' = edges g @ es)"
proof
  assume "grows g g'"
  then have "node_ids g' = node_ids g @ drop (length (nodes g)) (node_ids g')"
    "edges g' = edges g @ drop (length (edges g)) (edges g')"
    unfolding grows_def by (metis append_take_drop_id)+
  then show "\<exists>ns es. node_ids g' = node_ids g @ ns \<and> edges g' = edges g @ es" by blast
next
  assume "\<exists>ns es. node_ids g' = node_ids g @ ns \<and> edges g' = edges g @ es"
  then show "grows g g'" by (auto simp: grows_def node_ids_def)
qed

lemma grows_refl [simp]: "grows g g"
  by (simp add: grows_iff)

lemma grows_trans: "grows g g' \<Longrightarrow> grows g' g'' \<Longrightarrow> grows g g''"
  by (auto simp: grows_iff)

lemma grows_extends: "grows g g' \<Longrightarrow> extends g g'"
  by (auto simp: grows_iff extends_def)

lemma grows_setNode: "grows g (setNode g v l)"
  by (simp add: grows_iff node_ids_setNode)

lemma grows_setNode_default: "grows g (setNode_default g v)"
  by (simp add: grows_iff node_ids_setNode_default)

lemma grows_setEdge: "grows g (setEdge g v w)"
proof (cases "hasEdge g v w")
  case True
  then show ?thesis by (simp add: setEdge_def)
next
  case False
  have "grows g (setNode_default (setNode_default g v) w)"
    by (rule grows_trans [OF grows_setNode_default grows_setNode_default])
  then show ?thesis
    using False by (auto simp: grows_iff setEdge_def Let_def)
qed

lemma grows_then_setNode: "grows g g' \<Longrightarrow> grows g (setNode g' v l)"
  by (rule grows_trans [OF _ grows_setNode])

lemma grows_then_setEdge: "grows g g' \<Longrightarrow> grows g (setEdge g' v w)"
  by (rule grows_trans [OF _ grows_setEdge])

lemma grows_foldl:
  assumes "\<And>s x. x \<in> set xs \<Longrightarrow> grows s (f s x)"
  shows "grows g (foldl f g xs)"
  by (rule foldl_preserves [where P = "grows g"]) (auto intro: grows_trans assms)

lemma grows_last_segment_method: "grows g (last_segment_method inc cp segs i g e)"
  unfolding last_segment_method_unfold
  by (auto intro!: grows_then_setNode grows_then_setEdge)

lemma grows_inner_segment: "grows g (inner_segment segs g i)"
  unfolding inner_segment_unfold Let_def
  by (auto intro!: grows_then_setNode grows_then_setEdge)

lemma grows_path_step: "grows g (path_step inc ps g cp)"
  unfolding path_step_unfold segment_step_def Let_def
  by (auto intro!: grows_foldl grows_last_segment_method grows_inner_segment)

lemma grows_tag_request_step: "grows g (tag_request_step tdm p m g t)"
  unfolding tag_request_step_def Let_def
  by (auto intro!: grows_then_setNode grows_then_setEdge)

lemma grows_untagged_request: "grows g (untagged_request p m g)"
  unfolding untagged_request_def
  by (auto intro!: grows_then_setNode grows_then_setEdge)

lemma grows_tags_path_step: "grows g (tags_path_step inc tdm g e)"
  unfolding tags_path_step_def tags_method_step_def Let_def
  by (auto split: option.splits
      intro!: grows_foldl grows_tag_request_step grows_untagged_request)

lemma grows_declared_tag_step: "grows g (declared_tag_step tdm g e)"
  unfolding declared_tag_step_def Let_def
  by (auto intro!: grows_then_setNode grows_then_setEdge)

lemma grows_webhook_write: "grows g (webhook_write g pm)"
  unfolding webhook_write_def
  by (auto intro!: grows_then_setNode grows_then_setEdge)

lemma grows_generateWebhookEndpoints: "grows g (generateWebhookEndpoints spec g inc)"
  unfolding generateWebhookEndpoints_unfold
  by (auto intro!: grows_trans [OF _ grows_foldl] grows_webhook_write
      grows_then_setNode grows_then_setEdge)

subsection \<open>Replaying a list of calls\<close>

lemma replay_Nil [simp]: "replay [] = new_Graph"
  by (simp add: replay_def)

lemma replay_snoc [simp]: "replay (cs @ [c]) = apply_call (replay cs) c"
  by (simp add: replay_def)

lemma hasNode_new_Graph [simp]: "\<not> hasNode new_Graph v"
  by (simp add: hasNode_def new_Graph_def)

lemma hasEdge_new_Graph [simp]: "\<not> hasEdge new_Graph v w"
  by (simp add: hasEdge_def new_Graph_def)

lemma node_new_Graph [simp]: "node new_Graph v = None"
  by (simp add: node_def new_Graph_def)

lemma disciplined_Nil [simp]: "disciplined []"
  by (simp add: disciplined_def)

lemma disciplined_snoc: "disciplined (cs @ [c]) \<longleftrightarrow> disciplined cs \<and> ok_call cs c"
proof -
  have "list_all (\<lambda>k. ok_call (take k (cs @ [c])) ((cs @ [c]) ! k)) [0..<length cs] =
        list_all (\<lambda>k. ok_call (take k cs) (cs ! k)) [0..<length cs]"
    by (rule list.pred_cong) (simp_all add: nth_append)
  then show ?thesis
    by (simp add: disciplined_def)
qed

lemma disciplined_prefix: "disciplined (cs @ cs') \<Longrightarrow> disciplined cs"
  by (induction cs' rule: rev_induct) (simp_all add: disciplined_snoc flip: append_assoc)

lemma disciplined_ok_call: "disciplined (cs @ c # cs') \<Longrightarrow> ok_call cs c"
  using disciplined_prefix [of "cs @ [c]" cs'] by (simp add: disciplined_snoc)

lemma closed_edges_setNode: "closed_edges g \<Longrightarrow> closed_edges (setNode g v l)"
  by (auto simp: closed_edges_def list_all_iff)

lemma closed_edges_setEdge: "closed_edges g \<Longrightarrow> closed_edges (setEdge g v w)"
  by (auto simp: closed_edges_def list_all_iff edges_setEdge hasNode_setEdge hasEdge_def)

lemma closed_edges_replay: "closed_edges (replay cs)"
proof (induction cs rule: rev_induct)
  case Nil
  then show ?case by (simp add: closed_edges_def new_Graph_def)
next
  case (snoc c cs)
  then show ?case by (cases c) (simp_all add: closed_edges_setNode closed_edges_setEdge)
qed

lemma hasNode_replay_mono: "hasNode (replay cs) v \<Longrightarrow> hasNode (replay (cs @ cs')) v"
proof (induction cs' rule: rev_induct)
  case Nil
  then show ?case by simp
next
  case (snoc c cs')
  then show ?case
    by (cases c) (simp_all add: hasNode_setEdge_mono flip: append_assoc)
qed

lemma hasNode_replay_SetNode: "SetNode v l \<in> set cs \<Longrightarrow> hasNode (replay cs) v"
proof -
  assume "SetNode v l \<in> set cs"
  then obtain xs ys where "cs = (xs @ [SetNode v l]) @ ys"
    by (auto simp: in_set_conv_decomp)
  then show ?thesis
    using hasNode_replay_mono [of "xs @ [SetNode v l]" v ys] by simp
qed

lemma hasEdge_replay: "hasEdge (replay cs) a b \<longleftrightarrow> SetEdge a b \<in> set cs"
proof (induction cs rule: rev_induct)
  case Nil
  then show ?case by simp
next
  case (snoc c cs)
  then show ?case by (cases c) auto
qed


lemma node_writes_snoc [simp]: "node_writes (cs @ [c]) v = node_writes cs v @ written v c"
  by (simp add: node_writes_def)

lemma node_writes_Nil [simp]: "node_writes [] v = []"
  by (simp add: node_writes_def)

lemma node_writes_append: "node_writes (cs @ cs') v = node_writes cs v @ node_writes cs' v"
  by (simp add: node_writes_def)

lemma node_writes_mem: "l \<in> set (node_writes cs v) \<longleftrightarrow> SetNode v l \<in> set cs"
proof (induction cs rule: rev_induct)
  case Nil
  then show ?case by simp
next
  case (snoc c cs)
  then show ?case by (cases c) auto
qed


text \<open>Under the discipline, every node in the tree has been written.\<close>

lemma disciplined_hasNode:
  "disciplined cs \<Longrightarrow> hasNode (replay cs) v \<Longrightarrow> node_writes cs v \<noteq> []"
proof (induction cs rule: rev_induct)
  case Nil
  then show ?case by simp
next
  case (snoc c cs)
  then show ?case
    by (cases c) (auto simp: disciplined_snoc hasNode_setEdge)
qed

lemma disciplined_later_writes:
  "disciplined cs \<Longrightarrow> list_all is_request (tl (node_writes cs v))"
proof (induction cs rule: rev_induct)
  case Nil
  then show ?case by simp
next
  case (snoc c cs)
  show ?case
  proof (cases c)
    case (SetNode x l)
    show ?thesis
    proof (cases "x = v \<and> node_writes cs v \<noteq> []")
      case True
      then obtain l' where "SetNode v l' \<in> set cs"
        using node_writes_mem [of _ cs v] by (cases "node_writes cs v") auto
      then have "hasNode (replay cs) v" by (rule hasNode_replay_SetNode)
      then have "is_request l"
        using snoc.prems True SetNode by (simp add: disciplined_snoc)
      then show ?thesis
        using snoc True SetNode by (simp add: disciplined_snoc)
    next
      case False
      then show ?thesis
        using snoc SetNode by (auto simp: disciplined_snoc)
    qed
  next
    case (SetEdge a b)
    then show ?thesis using snoc by (simp add: disciplined_snoc)
  qed
qed

lemma request_writes_append [simp]:
  "request_writes (cs @ cs') = request_writes cs @ request_writes cs'"
  by (simp add: request_writes_def)

lemma request_writes_Cons [simp]: "request_writes (c # cs) = request_of c @ request_writes cs"
  by (simp add: request_writes_def)

lemma request_writes_Nil [simp]: "request_writes [] = []"
  by (simp add: request_writes_def)

lemma request_writes_filter:
  "filter is_request (node_writes cs v) =
   map snd (filter (\<lambda>p. fst p = v) (request_writes cs))"
proof (induction cs rule: rev_induct)
  case Nil
  then show ?case by simp
next
  case (snoc c cs)
  then show ?case by (cases c) auto
qed

subsection \<open>The graph of a logged run is the graph of the run\<close>

lemma fst_setNode_log [simp]: "fst (setNode_log s v l) = setNode (fst s) v l"
  by (simp add: setNode_log_def)

lemma fst_setEdge_log [simp]: "fst (setEdge_log s v w) = setEdge (fst s) v w"
  by (simp add: setEdge_log_def)

lemma snd_setNode_log [simp]: "snd (setNode_log s v l) = snd s @ [SetNode v l]"
  by (simp add: setNode_log_def)

lemma snd_setEdge_log [simp]: "snd (setEdge_log s v w) = snd s @ [SetEdge v w]"
  by (simp add: setEdge_log_def)

lemma fst_foldl:
  assumes "\<And>s x. fst (f' s x) = f (fst s) x"
  shows "fst (foldl f' s xs) = foldl f (fst s) xs"
  by (induction xs arbitrary: s) (simp_all add: assms)

lemma fst_single_segment_method_log [simp]:
  "fst (single_segment_method_log inc cp segs s e) = single_segment_method inc cp segs (fst s) e"
  by (simp add: single_segment_method_log_def single_segment_method_def Let_def)

lemma fst_last_segment_method_log [simp]:
  "fst (last_segment_method_log inc cp segs i s e) = last_segment_method inc cp segs i (fst s) e"
  by (simp add: last_segment_method_log_def last_segment_method_def Let_def)

lemma fst_inner_segment_log [simp]:
  "fst (inner_segment_log segs s i) = inner_segment segs (fst s) i"
  by (simp add: inner_segment_log_def inner_segment_def Let_def)

lemma fst_segment_step_log [simp]:
  "fst (segment_step_log inc ps cp segs s i) = segment_step inc ps cp segs (fst s) i"
  by (simp add: segment_step_log_def segment_step_def fst_foldl)

lemma fst_path_step_log [simp]: "fst (path_step_log inc ps s cp) = path_step inc ps (fst s) cp"
  by (simp add: path_step_log_def path_step_def Let_def fst_foldl)

lemma fst_root_tree_log [simp]: "fst root_tree_log = root_tree"
  by (simp add: root_tree_log_def root_tree_def)

lemma fst_generateTreeFromPathsV2_log [simp]:
  "fst (generateTreeFromPathsV2_log spec inc) = generateTreeFromPathsV2 spec inc"
  by (simp add: generateTreeFromPathsV2_log_def generateTreeFromPathsV2_def Let_def fst_foldl)

lemma fst_declared_tag_step_log [simp]:
  "fst (declared_tag_step_log tdm s e) = declared_tag_step tdm (fst s) e"
  by (simp add: declared_tag_step_log_def declared_tag_step_def Let_def)

lemma fst_tag_request_step_log [simp]:
  "fst (tag_request_step_log tdm p m s t) = tag_request_step tdm p m (fst s) t"
  by (simp add: tag_request_step_log_def tag_request_step_def Let_def)

lemma fst_untagged_request_log [simp]:
  "fst (untagged_request_log p m s) = untagged_request p m (fst s)"
  by (simp add: untagged_request_log_def untagged_request_def)

lemma fst_tags_method_step_log [simp]:
  "fst (tags_method_step_log inc tdm p s e) = tags_method_step inc tdm p (fst s) e"
  by (simp add: tags_method_step_log_def tags_method_step_def Let_def fst_foldl
      split: option.splits)

lemma fst_tags_path_step_log [simp]:
  "fst (tags_path_step_log inc tdm s e) = tags_path_step inc tdm (fst s) e"
  by (simp add: tags_path_step_log_def tags_path_step_def fst_foldl)

lemma fst_generateTreeFromTags_log [simp]:
  "fst (generateTreeFromTags_log spec inc) = generateTreeFromTags spec inc"
  by (simp add: generateTreeFromTags_log_def generateTreeFromTags_def declared_tag_folders_def
      Let_def fst_foldl)

lemma fst_webhook_method_step_log [simp]:
  "fst (webhook_method_step_log inc p s e) = webhook_method_step inc p (fst s) e"
  by (simp add: webhook_method_step_log_def webhook_method_step_def Let_def)

lemma fst_webhook_step_log [simp]:
  "fst (webhook_step_log inc s e) = webhook_step inc (fst s) e"
  by (simp add: webhook_step_log_def webhook_step_def fst_foldl)

lemma fst_generateWebhookEndpoints_log [simp]:
  "fst (generateWebhookEndpoints_log spec s inc) = generateWebhookEndpoints spec (fst s) inc"
  by (simp add: generateWebhookEndpoints_log_def generateWebhookEndpoints_def Let_def fst_foldl)


lemma generateSkeletonTreeFromOpenAPI_log_total:
  "generateSkeletonTreeFromOpenAPI spec opts = Inr t \<Longrightarrow>
   \<exists>cs. generateSkeletonTreeFromOpenAPI_log spec opts = Inr (t, cs)"
  by (auto simp: generateSkeletonTreeFromOpenAPI_log_def generateSkeletonTreeFromOpenAPI_def
      prod_eq_iff split: if_splits)

subsection \<open>Calls that keep the discipline\<close>

lemma log_inv_empty: "log_inv F (new_Graph, [])"
  by (simp add: log_inv_def)

lemma log_inv_setNode_log:
  assumes "log_inv F s" and "hasNode (fst s) v \<Longrightarrow> is_request l" and "is_request l \<or> F v l"
  shows "log_inv F (setNode_log s v l)"
  using assms by (auto simp: log_inv_def disciplined_snoc)

lemma log_inv_setEdge_log:
  assumes "log_inv F s" and "hasNode (fst s) a" and "hasNode (fst s) b" and "F a la"
    and "hasEdge (fst s) a b \<Longrightarrow> repeated_request (snd s) b"
  shows "log_inv F (setEdge_log s a b)"
  using assms by (auto simp: log_inv_def disciplined_snoc)

lemma log_inv_closed: "log_inv F s \<Longrightarrow> closed_edges (fst s)"
  by (simp add: log_inv_def closed_edges_replay)

lemma log_inv_new_folder:
  assumes "log_inv F s" and "\<not> hasNode (fst s) f" and "hasNode (fst s) p"
    and "F f l" and "F p lp"
  shows "log_inv F (setEdge_log (setNode_log s f l) p f)"
proof (rule log_inv_setEdge_log)
  show "log_inv F (setNode_log s f l)"
    using assms by (intro log_inv_setNode_log) simp_all
  show "hasNode (fst (setNode_log s f l)) p" "hasNode (fst (setNode_log s f l)) f"
    using assms(3) by simp_all
  show "F p lp" by (rule assms(5))
  show "repeated_request (snd (setNode_log s f l)) f"
    if "hasEdge (fst (setNode_log s f l)) p f"
  proof -
    have "hasEdge (fst s) p f" using that by simp
    then have "hasNode (fst s) f"
      using closed_edges_hasNode [OF log_inv_closed [OF assms(1)]] by blast
    then show ?thesis using assms(2) by simp
  qed
qed

lemma log_inv_request:
  assumes "log_inv F s" and "is_request l" and "hasNode (fst s) p" and "F p lp"
  shows "log_inv F (setEdge_log (setNode_log s r l) p r)"
proof (rule log_inv_setEdge_log)
  show "log_inv F (setNode_log s r l)"
    using assms by (intro log_inv_setNode_log) simp_all
  show "hasNode (fst (setNode_log s r l)) p" "hasNode (fst (setNode_log s r l)) r"
    using assms(3) by simp_all
  show "F p lp" by (rule assms(4))
  show "repeated_request (snd (setNode_log s r l)) r"
    if "hasEdge (fst (setNode_log s r l)) p r"
  proof -
    have "hasEdge (fst s) p r" using that by simp
    then have "hasNode (fst s) r"
      using closed_edges_hasNode [OF log_inv_closed [OF assms(1)]] by blast
    then have "hasNode (replay (snd s)) r"
      using assms(1) by (simp add: log_inv_def)
    then show ?thesis using assms(2) by (simp add: repeated_request_def)
  qed
qed


subsection \<open>The calls of the path strategy\<close>

lemma path_folder_call_simps [simp]:
  "path_folder_call root_id root_label"
  "path_folder_call (path_folder_id pid) (path_folder_label x pid)"
  "path_folder_call (folder_at segs i) (path_folder_label x (pathIdentifier_at segs i))"
  by (auto simp: path_folder_call_def folder_at_def)

lemma path_folder_call_parent: "\<exists>l. path_folder_call (parent_at segs i) l"
  by (auto simp: parent_at_def path_folder_call_def)

lemma is_request_labels [simp]:
  "is_request (path_request_label cp m pid)" "is_request (tag_request_label t p m)"
  "is_request (untagged_request_label p m)" "is_request (webhook_request_label p m)"
  "\<not> is_request (path_folder_label x pid)" "\<not> is_request (tag_folder_label p t d)"
  "\<not> is_request root_label" "\<not> is_request webhook_folder_label"
  by (simp_all add: is_request_def)

lemma last_segment_method_log_unfold:
  "last_segment_method_log inc cp segs i s e =
     (if skipped inc e then s
      else setEdge_log
             (setNode_log
                (if hasNode (fst s) (folder_at segs i) then s
                 else setEdge_log
                        (setNode_log s (folder_at segs i)
                           (path_folder_label (segs ! i) (pathIdentifier_at segs i)))
                        (parent_at segs i) (folder_at segs i))
                (path_request_id (pathIdentifier_at segs i) (fst e))
                (path_request_label cp (fst e) (pathIdentifier_at segs i)))
             (folder_at segs i) (path_request_id (pathIdentifier_at segs i) (fst e)))"
  by (auto simp: last_segment_method_log_def skipped_def Let_def folder_at_def parent_at_def
      pathIdentifier_at_def)

lemma single_segment_method_log_last:
  "length segs = 1 \<Longrightarrow>
   single_segment_method_log inc cp segs s e = last_segment_method_log inc cp segs 0 s e"
  by (cases segs)
     (simp_all add: single_segment_method_log_def last_segment_method_log_def Let_def)

lemma path_step_log_unfold:
  "path_step_log inc ps s cp =
     (let segs = pathSplit cp
      in if length segs = 1
         then foldl (last_segment_method_log inc cp segs 0) s (methods_of ps cp)
         else foldl (segment_step_log inc ps cp segs) s [0..<length segs])"
proof -
  have "foldl (single_segment_method_log inc cp segs) s ms =
        foldl (last_segment_method_log inc cp segs 0) s ms" if "length segs = 1" for segs ms
    by (induction ms arbitrary: s) (simp_all add: single_segment_method_log_last [OF that])
  then show ?thesis by (simp add: path_step_log_def Let_def)
qed

lemma log_inv_last_segment_method_log:
  assumes "log_inv path_folder_call s" and "hasNode (fst s) (parent_at segs i)"
  shows "log_inv path_folder_call (last_segment_method_log inc cp segs i s e)"
proof (cases "skipped inc e")
  case True
  then show ?thesis using assms by (simp add: last_segment_method_log_unfold)
next
  case False
  obtain lp where lp: "path_folder_call (parent_at segs i) lp"
    using path_folder_call_parent by blast
  define s1 where "s1 = (if hasNode (fst s) (folder_at segs i) then s
     else setEdge_log (setNode_log s (folder_at segs i)
            (path_folder_label (segs ! i) (pathIdentifier_at segs i)))
          (parent_at segs i) (folder_at segs i))"
  have "log_inv path_folder_call s1"
    unfolding s1_def using assms lp
    by (auto intro!: log_inv_new_folder [where lp = lp])
  moreover have "hasNode (fst s1) (folder_at segs i)"
    by (simp add: s1_def hasNode_setEdge)
  ultimately have "log_inv path_folder_call
      (setEdge_log (setNode_log s1 (path_request_id (pathIdentifier_at segs i) (fst e))
                      (path_request_label cp (fst e) (pathIdentifier_at segs i)))
         (folder_at segs i) (path_request_id (pathIdentifier_at segs i) (fst e)))"
    by (intro log_inv_request
          [where lp = "path_folder_label (segs ! i) (pathIdentifier_at segs i)"]) simp_all
  then show ?thesis
    using False by (simp add: last_segment_method_log_unfold s1_def)
qed

lemma log_inv_last_segment_loop:
  assumes "log_inv path_folder_call s" and "hasNode (fst s) (parent_at segs i)"
  shows "log_inv path_folder_call (foldl (last_segment_method_log inc cp segs i) s ms)"
proof -
  have "log_inv path_folder_call (foldl (last_segment_method_log inc cp segs i) s ms) \<and>
        hasNode (fst (foldl (last_segment_method_log inc cp segs i) s ms)) (parent_at segs i)"
    by (rule foldl_preserves
          [where P = "\<lambda>s. log_inv path_folder_call s \<and> hasNode (fst s) (parent_at segs i)"])
       (auto simp: assms log_inv_last_segment_method_log
          intro: extends_hasNode [OF extends_last_segment_method])
  then show ?thesis by simp
qed

lemma inner_segment_log_unfold:
  "inner_segment_log segs s i =
     (let s1 = (if hasNode (fst s) (folder_at segs i) then s
                else setNode_log s (folder_at segs i)
                       (path_folder_label (segs ! i) (pathIdentifier_at segs i)))
      in if hasEdge (fst s1) (parent_at segs i) (folder_at segs i) then s1
         else setEdge_log s1 (parent_at segs i) (folder_at segs i))"
  by (simp add: inner_segment_log_def Let_def folder_at_def parent_at_def pathIdentifier_at_def)

lemma log_inv_inner_segment_log:
  assumes "log_inv path_folder_call s" and "hasNode (fst s) (parent_at segs i)"
  shows "log_inv path_folder_call (inner_segment_log segs s i)"
proof -
  obtain lp where lp: "path_folder_call (parent_at segs i) lp"
    using path_folder_call_parent by blast
  define s1 where "s1 = (if hasNode (fst s) (folder_at segs i) then s
     else setNode_log s (folder_at segs i)
            (path_folder_label (segs ! i) (pathIdentifier_at segs i)))"
  have a: "log_inv path_folder_call s1"
    unfolding s1_def using assms(1) by (auto intro!: log_inv_setNode_log)
  have b: "hasNode (fst s1) (folder_at segs i)" "hasNode (fst s1) (parent_at segs i)"
    using assms(2) by (simp_all add: s1_def)
  have "log_inv path_folder_call (setEdge_log s1 (parent_at segs i) (folder_at segs i))"
    if "\<not> hasEdge (fst s1) (parent_at segs i) (folder_at segs i)"
    using a b lp that by (intro log_inv_setEdge_log [where la = lp]) simp_all
  then show ?thesis
    using a by (simp add: inner_segment_log_unfold Let_def s1_def [symmetric])
qed

lemma log_inv_inner_walk:
  assumes "log_inv path_folder_call s" and "hasNode (fst s) root_id"
  shows "log_inv path_folder_call (foldl (inner_segment_log segs) s [0..<k])"
proof (induction k)
  case 0
  then show ?case using assms by simp
next
  case (Suc k)
  define r where "r = foldl (inner_segment_log segs) s [0..<k]"
  have fr: "fst r = foldl (inner_segment segs) (fst s) [0..<k]"
    by (simp add: r_def fst_foldl)
  have par: "hasNode (fst r) (parent_at segs k)"
  proof (cases k)
    case 0
    then show ?thesis using assms(2) by (simp add: r_def parent_at_def)
  next
    case (Suc j)
    then show ?thesis
      using hasNode_inner_walk [of j k segs "fst s"] by (simp add: fr parent_at_Suc)
  qed
  have "log_inv path_folder_call (inner_segment_log segs r k)"
    using Suc par by (intro log_inv_inner_segment_log) (simp_all add: r_def)
  then show ?case by (simp add: r_def)
qed

lemma path_step_log_walk:
  assumes "2 \<le> length (pathSplit cp)"
  shows "path_step_log inc ps s cp =
           foldl (last_segment_method_log inc cp (pathSplit cp) (length (pathSplit cp) - 1))
             (foldl (inner_segment_log (pathSplit cp)) s [0..<length (pathSplit cp) - 1])
             (methods_of ps cp)"
proof -
  define segs where "segs = pathSplit cp"
  define n where "n = length segs - 1"
  have len: "length segs = Suc n" using assms by (simp add: n_def segs_def)
  have "foldl (segment_step_log inc ps cp segs) s [0..<n] =
        foldl (inner_segment_log segs) s [0..<n]"
    by (rule foldl_agree) (simp add: segment_step_log_def len)
  then have "foldl (segment_step_log inc ps cp segs) s [0..<Suc n] =
             foldl (last_segment_method_log inc cp segs n)
               (foldl (inner_segment_log segs) s [0..<n]) (methods_of ps cp)"
    by (simp add: segment_step_log_def len)
  then show ?thesis
    using assms len
    by (simp add: path_step_log_unfold Let_def segs_def [symmetric] n_def [symmetric])
qed

lemma log_inv_path_step_log:
  assumes "log_inv path_folder_call s" and "hasNode (fst s) root_id"
  shows "log_inv path_folder_call (path_step_log inc ps s cp)"
proof -
  define segs where "segs = pathSplit cp"
  consider "segs = []" | "length segs = 1" | "2 \<le> length segs"
    by (cases segs) (auto simp: Suc_le_eq)
  then show ?thesis
  proof cases
    case 1
    then show ?thesis using assms by (simp add: path_step_log_unfold segs_def)
  next
    case 2
    have "hasNode (fst s) (parent_at segs 0)"
      using assms(2) by (simp add: parent_at_def)
    then show ?thesis
      using 2 assms(1)
      by (simp add: path_step_log_unfold segs_def [symmetric] log_inv_last_segment_loop)
  next
    case 3
    define r where "r = foldl (inner_segment_log segs) s [0..<length segs - 1]"
    have w: "log_inv path_folder_call r"
      unfolding r_def using assms by (rule log_inv_inner_walk)
    have fr: "fst r = foldl (inner_segment segs) (fst s) [0..<length segs - 1]"
      by (simp add: r_def fst_foldl)
    obtain j where j: "length segs - 1 = Suc j" using 3 by (cases "length segs - 1") auto
    have "hasNode (fst r) (parent_at segs (length segs - 1))"
      using hasNode_inner_walk [of j "length segs - 1" segs "fst s"] j
      by (simp add: fr parent_at_Suc)
    moreover have "path_step_log inc ps s cp =
        foldl (last_segment_method_log inc cp segs (length segs - 1)) r (methods_of ps cp)"
      using 3 by (simp add: path_step_log_walk segs_def r_def)
    ultimately show ?thesis
      using w by (simp add: log_inv_last_segment_loop)
  qed
qed

lemma log_inv_root_tree_log: "F root_id root_label \<Longrightarrow> log_inv F root_tree_log"
  unfolding root_tree_log_def
  by (rule log_inv_setNode_log) (simp_all add: log_inv_empty)

lemma log_inv_generateTreeFromPathsV2_log:
  "log_inv path_folder_call (generateTreeFromPathsV2_log spec inc)"
proof -
  have "log_inv path_folder_call
          (foldl (path_step_log inc (paths spec)) root_tree_log (map fst (paths spec))) \<and>
        hasNode (fst (foldl (path_step_log inc (paths spec)) root_tree_log
                        (map fst (paths spec)))) root_id"
    by (rule foldl_preserves
          [where P = "\<lambda>s. log_inv path_folder_call s \<and> hasNode (fst s) root_id"])
       (auto simp: log_inv_root_tree_log log_inv_path_step_log
          intro: extends_hasNode [OF extends_path_step])
  then show ?thesis
    by (simp add: generateTreeFromPathsV2_log_def Let_def log_inv_root_tree_log)
qed

subsection \<open>The calls of the tag strategy\<close>

lemma tag_folder_call_simps [simp]:
  "tag_folder_call T tdm root_id root_label"
  "tag \<in> T \<Longrightarrow> tag_folder_call T tdm (tag_folder_id tag) (tag_folder_label p tag (obj_get tdm tag))"
  by (auto simp: tag_folder_call_def)




lemma hasNode_root_kept_tags [simp]:
  "hasNode g root_id \<Longrightarrow> hasNode (tag_request_step tdm p m g t) root_id"
  "hasNode g root_id \<Longrightarrow> hasNode (untagged_request p m g) root_id"
  "hasNode g root_id \<Longrightarrow> hasNode (declared_tag_step tdm g e) root_id"
  "hasNode g root_id \<Longrightarrow> hasNode (tags_method_step inc tdm p g e') root_id"
  "hasNode g root_id \<Longrightarrow> hasNode (tags_path_step inc tdm g e'') root_id"
  by (auto intro: extends_hasNode [OF extends_tag_request_step]
      extends_hasNode [OF extends_untagged_request]
      extends_hasNode [OF extends_declared_tag_step]
      extends_hasNode [OF extends_tags_method_step]
      extends_hasNode [OF extends_tags_path_step])




subsection \<open>The calls of the webhook pass\<close>

lemma webhook_folder_call_simps [simp]:
  "webhook_folder_call F webhook_folder_id webhook_folder_label"
  "F v l \<Longrightarrow> webhook_folder_call F v l"
  by (simp_all add: webhook_folder_call_def)




subsection \<open>The request nodes written by a run\<close>

lemma request_writes_foldl:
  assumes "\<And>s x. request_writes (snd (f s x)) = request_writes (snd s) @ G x"
  shows "request_writes (snd (foldl f s xs)) = request_writes (snd s) @ concat (map G xs)"
  by (induction xs arbitrary: s) (simp_all add: assms)

lemma concat_map_filter:
  "concat (map (\<lambda>e. if P e then [] else [h e]) xs) = map h (filter (\<lambda>e. \<not> P e) xs)"
  by (induction xs) auto

lemma request_writes_last_segment_method_log:
  "request_writes (snd (last_segment_method_log inc cp segs i s e)) =
     request_writes (snd s) @
     (if skipped inc e then []
      else [(path_request_id (pathIdentifier_at segs i) (fst e),
             path_request_label cp (fst e) (pathIdentifier_at segs i))])"
  by (simp add: last_segment_method_log_unfold)

lemma request_writes_last_segment_loop:
  "request_writes (snd (foldl (last_segment_method_log inc cp segs i) s ms)) =
     request_writes (snd s) @
     map (\<lambda>e. (path_request_id (pathIdentifier_at segs i) (fst e),
               path_request_label cp (fst e) (pathIdentifier_at segs i)))
       (filter (\<lambda>e. \<not> skipped inc e) ms)"
  by (simp add: request_writes_foldl [OF request_writes_last_segment_method_log]
      concat_map_filter)

lemma request_writes_inner_segment_log:
  "request_writes (snd (inner_segment_log segs s i)) = request_writes (snd s)"
  by (simp add: inner_segment_log_unfold Let_def)

lemma request_writes_inner_walk:
  "request_writes (snd (foldl (inner_segment_log segs) s ks)) = request_writes (snd s)"
  using request_writes_foldl [of "inner_segment_log segs" "\<lambda>x. []" s ks]
  by (simp add: request_writes_inner_segment_log)

lemma request_writes_path_step_log:
  "request_writes (snd (path_step_log inc ps s cp)) =
     request_writes (snd s) @ path_requests inc ps cp"
proof -
  define segs where "segs = pathSplit cp"
  consider "segs = []" | "length segs = 1" | "2 \<le> length segs"
    by (cases segs) (auto simp: Suc_le_eq)
  then show ?thesis
  proof cases
    case 1
    then show ?thesis
      by (simp add: path_step_log_unfold path_requests_def segs_def)
  next
    case 2
    then obtain x where x: "segs = [x]" by (cases segs) auto
    show ?thesis
      using x
      by (simp add: path_step_log_unfold path_requests_def segs_def [symmetric]
          request_writes_last_segment_loop pathIdentifier_at_def)
  next
    case 3
    then have ne: "segs \<noteq> []" by auto
    have "pathIdentifier_at segs (length segs - 1) = join ''/'' segs"
      using 3 by (simp add: pathIdentifier_at_def)
    then show ?thesis
      using 3 ne
      by (simp add: path_step_log_walk path_requests_def segs_def [symmetric]
          request_writes_last_segment_loop request_writes_inner_walk)
  qed
qed

lemma request_writes_root_tree_log [simp]: "request_writes (snd root_tree_log) = []"
  by (simp add: root_tree_log_def)

lemma request_writes_generateTreeFromPathsV2_log:
  "request_writes (snd (generateTreeFromPathsV2_log spec inc)) =
     concat (map (path_requests inc (paths spec)) (map fst (paths spec)))"
  by (simp add: generateTreeFromPathsV2_log_def Let_def
      request_writes_foldl [OF request_writes_path_step_log])











subsection \<open>The calls of a whole run\<close>


lemma take_path_folder_id [simp]: "take 12 (path_folder_id pid) = ''path:folder:''"
  by (simp add: path_folder_id_def)


subsection \<open>Identifiers that are written once\<close>


lemma node_writes_decomp:
  "node_writes (xs @ SetNode v l # ys) v = node_writes xs v @ l # node_writes ys v"
  by (simp add: node_writes_def)

lemma written_once_unwritten:
  assumes "disciplined cs" and "hasNode (replay cs) v"
    and "v \<notin> fst ` set (request_writes cs)"
  shows "length (node_writes cs v) = 1"
proof -
  have ne: "node_writes cs v \<noteq> []"
    using assms(1,2) by (rule disciplined_hasNode)
  have "filter is_request (node_writes cs v) = []"
    using assms(3) by (auto simp: request_writes_filter filter_empty_conv)
  then have no: "\<not> is_request l" if "l \<in> set (node_writes cs v)" for l
    using that by (auto simp: filter_empty_conv)
  have "list_all is_request (tl (node_writes cs v))"
    using assms(1) by (rule disciplined_later_writes)
  moreover have "l \<in> set (node_writes cs v)" if "l \<in> set (tl (node_writes cs v))" for l
    using that ne by (rule list.set_sel(2) [rotated])
  ultimately have "tl (node_writes cs v) = []"
    using no by (cases "tl (node_writes cs v)") (auto simp: list_all_iff)
  then show ?thesis
    using ne by (cases "node_writes cs v") auto
qed




lemma written_once_edge_fresh:
  assumes "disciplined cs" and "length (node_writes cs v) = 1" and "cs = xs @ SetEdge a v # ys"
  shows "\<not> hasEdge (replay xs) a v"
proof
  assume e: "hasEdge (replay xs) a v"
  have "ok_call xs (SetEdge a v)"
    using assms(1,3) disciplined_ok_call by blast
  then have rr: "repeated_request xs v" using e by simp
  then have ne: "xs \<noteq> []" by (simp add: repeated_request_def)
  then obtain l where last: "last xs = SetNode v l"
    and old: "hasNode (replay (butlast xs)) v"
    using rr by (auto simp: repeated_request_def split: call.splits)
  define b where "b = butlast xs"
  have xs: "xs = b @ [SetNode v l]"
    using append_butlast_last_id [OF ne] last by (simp add: b_def)
  have cs: "cs = b @ SetNode v l # SetEdge a v # ys"
    by (simp add: assms(3) xs)
  have "disciplined b"
    using assms(1) unfolding cs by (rule disciplined_prefix)
  then have "node_writes b v \<noteq> []"
    using old by (simp add: disciplined_hasNode b_def)
  moreover have "node_writes cs v = node_writes b v @ l # node_writes (SetEdge a v # ys) v"
    unfolding cs by (rule node_writes_decomp)
  ultimately show False
    using assms(2) by (cases "node_writes b v") auto
qed

lemma count_list_two:
  "1 < count_list cs x \<Longrightarrow> \<exists>xs ys zs. cs = xs @ x # ys @ x # zs"
proof (induction cs)
  case Nil
  then show ?case by simp
next
  case (Cons c cs)
  show ?case
  proof (cases "c = x")
    case True
    then have "count_list cs x \<noteq> 0"
      using Cons.prems by simp
    then have "x \<in> set cs"
      by (simp add: count_list_0_iff)
    then obtain ys zs where "cs = ys @ x # zs"
      by (auto simp: in_set_conv_decomp)
    then have "c # cs = [] @ x # ys @ x # zs" using True by simp
    then show ?thesis by blast
  next
    case False
    then obtain xs ys zs where "cs = xs @ x # ys @ x # zs"
      using Cons by auto
    then have "c # cs = (c # xs) @ x # ys @ x # zs" by simp
    then show ?thesis by blast
  qed
qed

lemma written_once_edge_count:
  assumes "disciplined cs" and "length (node_writes cs v) = 1" and "hasEdge (replay cs) a v"
  shows "count_list cs (SetEdge a v) = 1"
proof -
  have "SetEdge a v \<in> set cs"
    using assms(3) by (simp add: hasEdge_replay)
  then have "count_list cs (SetEdge a v) \<noteq> 0"
    by (simp add: count_list_0_iff)
  then have pos: "0 < count_list cs (SetEdge a v)"
    by simp
  have "\<not> 1 < count_list cs (SetEdge a v)"
  proof
    assume "1 < count_list cs (SetEdge a v)"
    from count_list_two [OF this]
    obtain xs ys zs where c: "cs = xs @ SetEdge a v # ys @ SetEdge a v # zs"
      by blast
    have "\<not> hasEdge (replay (xs @ SetEdge a v # ys)) a v"
      by (rule written_once_edge_fresh [OF assms(1,2)]) (simp add: c)
    then show False by (simp add: hasEdge_replay)
  qed
  then show ?thesis using pos by simp
qed




subsection \<open>Folders and requests of the tag strategy\<close>



lemma used_tags_mem:
  assumes "(p, ms) \<in> set ps" and "(m, d) \<in> set ms"
    and "ALLOWED_HTTP_METHODS m" and "inc \<or> \<not> deprecated d"
    and "op_tags d = Some ts" and "t \<in> set ts"
  shows "t \<in> set (used_tags inc tdm ps)"
proof -
  have k: "\<not> skipped inc (m, d)"
    using assms(3,4) by (auto simp: skipped_def)
  then have "t \<in> set (operation_tags inc (m, d))"
    using assms(5,6) by (simp add: operation_tags_def)
  then have "t \<in> set (concat (map (operation_tags inc) ms))"
    using assms(2) by (auto intro!: bexI [where x = "(m, d)"])
  then show ?thesis
    using assms(1) unfolding used_tags_def
    by (auto intro!: bexI [where x = "(p, ms)"])
qed












subsection \<open>A folder is created only by a path that reaches it\<close>

lemma hasNode_last_segment_loop_only:
  assumes "hasNode (foldl (last_segment_method inc cp segs i) g ms) v"
    and "hasNode g (parent_at segs i)"
  shows "hasNode g v \<or>
         (\<not> list_all (skipped inc) ms \<and> (v = folder_at segs i \<or> \<not> no_path_request v))"
  using assms
proof (induction ms arbitrary: g)
  case Nil
  then show ?case by simp
next
  case (Cons e ms)
  define g' where "g' = last_segment_method inc cp segs i g e"
  have par: "hasNode g' (parent_at segs i)"
    unfolding g'_def using Cons.prems(2)
    by (rule extends_hasNode [OF extends_last_segment_method])
  have "hasNode g' v \<or>
        (\<not> list_all (skipped inc) ms \<and> (v = folder_at segs i \<or> \<not> no_path_request v))"
    using Cons.IH [of g'] Cons.prems(1) par by (simp add: g'_def)
  moreover have "hasNode g v \<or> (\<not> skipped inc e \<and> (v = folder_at segs i \<or> \<not> no_path_request v))"
    if "hasNode g' v"
  proof (cases "skipped inc e")
    case True
    then show ?thesis using that by (simp add: g'_def last_segment_method_skipped)
  next
    case False
    then show ?thesis
      using that hasNode_last_segment_method [OF Cons.prems(2) False, of cp v]
      by (auto simp: g'_def)
  qed
  ultimately show ?case by auto
qed

lemma hasNode_path_step_only:
  assumes "hasNode (path_step inc ps g c) v" and "hasNode g root_id"
  shows "hasNode g v \<or> \<not> no_path_request v \<or>
         (\<exists>j<length (pathSplit c). v = folder_at (pathSplit c) j \<and>
            (j + 1 < length (pathSplit c) \<or> \<not> list_all (skipped inc) (methods_of ps c)))"
proof -
  define segs where "segs = pathSplit c"
  consider "segs = []" | "length segs = 1" | "2 \<le> length segs"
    by (cases segs) (auto simp: Suc_le_eq)
  then show ?thesis
  proof cases
    case 1
    then show ?thesis using assms(1) by (simp add: path_step_empty segs_def)
  next
    case 2
    have "hasNode g (parent_at segs 0)"
      using assms(2) by (simp add: parent_at_def)
    then have "hasNode g v \<or>
        (\<not> list_all (skipped inc) (methods_of ps c) \<and>
         (v = folder_at segs 0 \<or> \<not> no_path_request v))"
      using assms(1) 2
      by (intro hasNode_last_segment_loop_only [where cp = c])
         (simp_all add: path_step_single segs_def)
    then show ?thesis
      using 2 by (auto simp: segs_def)
  next
    case 3
    define n where "n = length segs - 1"
    define r where "r = foldl (inner_segment segs) g [0..<n]"
    have n: "n < length segs" "0 < n" using 3 by (simp_all add: n_def)
    have ids: "set (node_ids r) = set (node_ids g) \<union> folder_at segs ` {..<n}"
      using inner_walk [OF assms(2) n(1)] by (simp add: r_def)
    obtain j where j: "n = Suc j" using n(2) by (cases n) auto
    have par: "hasNode r (parent_at segs n)"
      using ids j by (auto simp: parent_at_Suc hasNode_ids)
    have "path_step inc ps g c = foldl (last_segment_method inc c segs n) r (methods_of ps c)"
      using 3 by (simp add: path_step_walk segs_def r_def n_def)
    then have "hasNode r v \<or>
        (\<not> list_all (skipped inc) (methods_of ps c) \<and>
         (v = folder_at segs n \<or> \<not> no_path_request v))"
      using assms(1) par by (intro hasNode_last_segment_loop_only [where cp = c]) simp_all
    moreover have "hasNode g v \<or> (\<exists>k<length segs. v = folder_at segs k \<and> k + 1 < length segs)"
      if "hasNode r v"
    proof -
      from that ids consider "hasNode g v" | k where "k < n" "v = folder_at segs k"
        by (auto simp: hasNode_ids)
      then show ?thesis
      proof cases
        case 1
        then show ?thesis by simp
      next
        case 2
        then have "k < length segs \<and> v = folder_at segs k \<and> k + 1 < length segs"
          using n by (simp add: n_def)
        then show ?thesis by blast
      qed
    qed
    moreover have "n < length segs \<and> folder_at segs n = folder_at segs n"
      using n by simp
    ultimately show ?thesis
      unfolding segs_def [symmetric] by blast
  qed
qed

lemma reaches_folder_at:
  assumes "segs_ok pre" and "pre \<noteq> []" and "j < length (pathSplit c)"
    and "path_folder_id (join ''/'' pre) = folder_at (pathSplit c) j"
    and "j + 1 < length (pathSplit c) \<or> \<not> list_all (skipped inc) (methods_of ps c)"
  shows "reaches inc ps c pre"
proof -
  have len: "length pre - 1 < length pre" using assms(2) by (cases pre) auto
  have "pathIdentifier_at (pathSplit c) j = pathIdentifier_at pre (length pre - 1)"
    using assms(2,4) len by (simp add: folder_at_def pathIdentifier_at_def)
  then have "take (j + 1) (pathSplit c) = take (length pre - 1 + 1) pre"
    using segs_ok_pathSplit assms(1,3) len by (intro pathIdentifier_at_determines)
  then have t: "take (j + 1) (pathSplit c) = pre"
    using len by simp
  then have "length pre = j + 1"
    using assms(3) by (metis Suc_eq_plus1 Suc_leI length_take min.absorb2)
  then show ?thesis
    using t assms(2,3,5) by (simp add: reaches_def)
qed

lemma folder_only_if_reached:
  assumes "hasNode (foldl (path_step inc ps) g ks) (path_folder_id (join ''/'' pre))"
    and "segs_ok pre" and "pre \<noteq> []" and "hasNode g root_id"
  shows "hasNode g (path_folder_id (join ''/'' pre)) \<or> (\<exists>c\<in>set ks. reaches inc ps c pre)"
  using assms(1,4)
proof (induction ks arbitrary: g)
  case Nil
  then show ?case by simp
next
  case (Cons k ks)
  define g' where "g' = path_step inc ps g k"
  have root: "hasNode g' root_id"
    unfolding g'_def using Cons.prems(2) by (rule extends_hasNode [OF extends_path_step])
  have "hasNode g' (path_folder_id (join ''/'' pre)) \<or> (\<exists>c\<in>set ks. reaches inc ps c pre)"
    using Cons.IH [of g'] Cons.prems(1) root by (simp add: g'_def)
  moreover have "hasNode g (path_folder_id (join ''/'' pre)) \<or> reaches inc ps k pre"
    if h: "hasNode g' (path_folder_id (join ''/'' pre))"
  proof -
    from hasNode_path_step_only [OF h [unfolded g'_def] Cons.prems(2)]
    consider "hasNode g (path_folder_id (join ''/'' pre))"
      | j where "j < length (pathSplit k)"
          "path_folder_id (join ''/'' pre) = folder_at (pathSplit k) j"
          "j + 1 < length (pathSplit k) \<or> \<not> list_all (skipped inc) (methods_of ps k)"
      by auto
    then show ?thesis
    proof cases
      case 1
      then show ?thesis by simp
    next
      case 2
      then show ?thesis
        using reaches_folder_at [OF assms(2,3) 2] by simp
    qed
  qed
  ultimately show ?case by auto
qed

lemma folder_if_reached:
  assumes "c \<in> set ks" and "reaches inc ps c pre"
  shows "hasNode (foldl (path_step inc ps) g ks) (path_folder_id (join ''/'' pre))"
proof -
  define i where "i = length pre - 1"
  have i: "i < length (pathSplit c)" "i + 1 = length pre"
    using assms(2) by (cases pre; simp add: reaches_def i_def)+
  have f: "folder_at (pathSplit c) i = path_folder_id (join ''/'' pre)"
    using assms(2) i(2) by (simp add: folder_at_def pathIdentifier_at_def reaches_def)
  have "hasNode (foldl (path_step inc ps) g ks) (folder_at (pathSplit c) i)"
  proof (rule foldl_establishes [where x = c])
    show "c \<in> set ks" by (rule assms(1))
    show "hasNode (path_step inc ps s c) (folder_at (pathSplit c) i)" for s
      using i assms(2) by (intro path_step_creates_folder) (simp_all add: reaches_def)
    show "hasNode s (folder_at (pathSplit c) i) \<Longrightarrow>
          hasNode (path_step inc ps s y) (folder_at (pathSplit c) i)" for s y
      by (rule extends_hasNode [OF extends_path_step])
  qed
  then show ?thesis by (simp add: f)
qed

lemma folder_iff_reached:
  assumes "segs_ok pre" and "pre \<noteq> []"
  shows "hasNode (foldl (path_step inc ps) root_tree ks) (path_folder_id (join ''/'' pre)) \<longleftrightarrow>
         (\<exists>c\<in>set ks. reaches inc ps c pre)"
proof
  assume "hasNode (foldl (path_step inc ps) root_tree ks) (path_folder_id (join ''/'' pre))"
  then show "\<exists>c\<in>set ks. reaches inc ps c pre"
    using folder_only_if_reached [OF _ assms, of inc ps root_tree ks] by simp
next
  assume "\<exists>c\<in>set ks. reaches inc ps c pre"
  then show "hasNode (foldl (path_step inc ps) root_tree ks) (path_folder_id (join ''/'' pre))"
    using folder_if_reached by blast
qed

lemma path_strategy_log:
  "generateTreeFromPathsV2 spec inc = replay (snd (generateTreeFromPathsV2_log spec inc))"
  "disciplined (snd (generateTreeFromPathsV2_log spec inc))"
  "request_writes (snd (generateTreeFromPathsV2_log spec inc)) =
     concat (map (path_requests inc (paths spec)) (map fst (paths spec)))"
  using log_inv_generateTreeFromPathsV2_log [of spec inc]
    request_writes_generateTreeFromPathsV2_log [of spec inc]
  by (simp_all add: log_inv_def)

lemma path_requests_not_folder:
  "path_folder_id pid \<notin> fst ` set (concat (map (path_requests inc ps) ks))"
  by (auto simp: path_requests_def Let_def split: if_splits)

lemma folder_calls_of_the_path_strategy:
  assumes "hasNode (generateTreeFromPathsV2 spec inc) (path_folder_id pid) \<longrightarrow>
           hasEdge (generateTreeFromPathsV2 spec inc) p (path_folder_id pid)"
  shows "length (node_writes (snd (generateTreeFromPathsV2_log spec inc)) (path_folder_id pid)) =
           count_list (node_ids (generateTreeFromPathsV2 spec inc)) (path_folder_id pid) \<and>
         count_list (snd (generateTreeFromPathsV2_log spec inc)) (SetEdge p (path_folder_id pid)) =
           count_list (node_ids (generateTreeFromPathsV2 spec inc)) (path_folder_id pid)"
proof -
  define t where "t = generateTreeFromPathsV2 spec inc"
  define cs where "cs = snd (generateTreeFromPathsV2_log spec inc)"
  define f where "f = path_folder_id pid"
  have t: "t = replay cs" and d: "disciplined cs"
    and rw: "request_writes cs = concat (map (path_requests inc (paths spec)) (map fst (paths spec)))"
    using path_strategy_log [where spec = spec and inc = inc] by (simp_all add: t_def cs_def)
  have nr: "f \<notin> fst ` set (request_writes cs)"
    unfolding rw f_def by (rule path_requests_not_folder)
  have dn: "distinct (node_ids t)"
    using well_formed_generateTreeFromPathsV2 [of spec inc] by (simp add: well_formed_def t_def)
  show ?thesis
  proof (cases "hasNode t f")
    case True
    have o: "length (node_writes cs f) = 1"
      using d True nr unfolding t by (rule written_once_unwritten)
    have "hasEdge (replay cs) p f"
      using assms True by (simp add: t_def [symmetric] f_def [symmetric] t [symmetric])
    then have "count_list cs (SetEdge p f) = 1"
      using d o by (intro written_once_edge_count)
    moreover have "count_list (node_ids t) f = 1"
      using dn True by (simp add: count_one hasNode_ids)
    ultimately show ?thesis
      using o by (simp add: t_def cs_def f_def)
  next
    case False
    have "node_writes cs f = []"
    proof (rule ccontr)
      assume "node_writes cs f \<noteq> []"
      then obtain l where "l \<in> set (node_writes cs f)"
        by (cases "node_writes cs f") auto
      then have "hasNode (replay cs) f"
        using hasNode_replay_SetNode [of f l cs] by (simp add: node_writes_mem)
      then show False using False by (simp add: t)
    qed
    moreover have "SetEdge p f \<notin> set cs"
    proof
      assume "SetEdge p f \<in> set cs"
      then have "hasEdge (replay cs) p f" by (simp add: hasEdge_replay)
      then have "hasNode (replay cs) f"
        using closed_edges_hasNode [OF closed_edges_replay] by blast
      then show False using False by (simp add: t)
    qed
    then have "count_list cs (SetEdge p f) = 0"
      by (simp add: count_list_0_iff)
    moreover have "count_list (node_ids t) f = 0"
      using False by (simp add: count_list_0_iff hasNode_ids)
    ultimately show ?thesis
      by (simp add: t_def cs_def f_def)
  qed
qed

subsection \<open>The webhook pass on the entries that pass the deprecation filter\<close>

lemma webhook_pass_characterised:
  assumes "base = generateTreeFromPathsV2 spec' inc' \<or> base = generateTreeFromTags spec' inc'"
  shows "(\<forall>opts t. generateSkeletonTreeFromOpenAPI spec opts = Inr t \<longrightarrow>
            t = (if includeWebhooks opts
                 then generateWebhookEndpoints spec
                        (if folderStrategy opts = ''tags''
                         then generateTreeFromTags spec (includeDeprecated opts)
                         else generateTreeFromPathsV2 spec (includeDeprecated opts))
                        (includeDeprecated opts)
                 else if folderStrategy opts = ''tags''
                      then generateTreeFromTags spec (includeDeprecated opts)
                      else generateTreeFromPathsV2 spec (includeDeprecated opts))) \<and>
         (webhooks spec = [] \<longrightarrow> generateWebhookEndpoints spec base inc = base) \<and>
         (webhooks spec \<noteq> [] \<longrightarrow>
            set (node_ids (generateWebhookEndpoints spec base inc)) =
              set (node_ids base) \<union> {webhook_folder_id} \<union>
              set (webhook_request_ids inc (webhooks spec)) \<and>
            set (edges (generateWebhookEndpoints spec base inc)) =
              set (edges base) \<union> {(root_id, webhook_folder_id)} \<union>
              (\<lambda>x. (webhook_folder_id, x)) ` set (webhook_request_ids inc (webhooks spec)) \<and>
            distinct (node_ids (generateWebhookEndpoints spec base inc)) \<and>
            distinct (edges (generateWebhookEndpoints spec base inc)) \<and>
            count_list (node_ids (generateWebhookEndpoints spec base inc)) webhook_folder_id = 1 \<and>
            count_list (edges (generateWebhookEndpoints spec base inc))
              (root_id, webhook_folder_id) = 1 \<and>
            node (generateWebhookEndpoints spec base inc) webhook_folder_id =
              Some webhook_folder_label \<and>
            webhook_folder_id \<notin> set (node_ids base) \<and>
            (\<forall>x\<in>set (webhook_request_ids inc (webhooks spec)).
               x \<notin> set (node_ids base) \<and>
               (\<exists>l. node (generateWebhookEndpoints spec base inc) x = Some l \<and>
                    ntype l = ''webhook~request'')) \<and>
            (\<forall>v. hasNode base v \<longrightarrow>
               node (generateWebhookEndpoints spec base inc) v = node base v) \<and>
            (distinct (map fst (webhooks spec)) \<and>
             (\<forall>w\<in>set (webhooks spec).
                distinct (map fst (snd w)) \<and> (\<forall>e\<in>set (snd w). CHR '':'' \<notin> set (fst e))) \<longrightarrow>
               distinct (webhook_request_ids inc (webhooks spec))) \<and>
            (distinct (webhook_request_ids inc (webhooks spec)) \<longrightarrow>
               nodes (generateWebhookEndpoints spec base inc) =
                 nodes base @ (webhook_folder_id, Some webhook_folder_label) #
                 map (\<lambda>pm. (webhook_request_id (fst pm) (snd pm),
                             Some (webhook_request_label (fst pm) (snd pm))))
                   (webhook_operations inc (webhooks spec)) \<and>
               edges (generateWebhookEndpoints spec base inc) =
                 edges base @ (root_id, webhook_folder_id) #
                 map (\<lambda>x. (webhook_folder_id, x)) (webhook_request_ids inc (webhooks spec))))"
proof (intro conjI impI)
  show "\<forall>opts t. generateSkeletonTreeFromOpenAPI spec opts = Inr t \<longrightarrow>
          t = (if includeWebhooks opts
               then generateWebhookEndpoints spec
                      (if folderStrategy opts = ''tags''
                       then generateTreeFromTags spec (includeDeprecated opts)
                       else generateTreeFromPathsV2 spec (includeDeprecated opts))
                      (includeDeprecated opts)
               else if folderStrategy opts = ''tags''
                    then generateTreeFromTags spec (includeDeprecated opts)
                    else generateTreeFromPathsV2 spec (includeDeprecated opts))"
    by (auto simp: generateSkeletonTreeFromOpenAPI_def split: if_splits)
next
  show "generateWebhookEndpoints spec base inc = base" if "webhooks spec = []"
    using that by (simp add: generateWebhookEndpoints_unfold)
next
  assume ne: "webhooks spec \<noteq> []"
  define ops where "ops = webhook_operations inc (webhooks spec)"
  define rid where "rid = (\<lambda>pm :: string \<times> string. webhook_request_id (fst pm) (snd pm))"
  define g1 where "g1 = setEdge (setNode base webhook_folder_id webhook_folder_label) root_id
                          webhook_folder_id"
  define r where "r = generateWebhookEndpoints spec base inc"
  have ids: "webhook_request_ids inc (webhooks spec) = map rid ops"
    by (simp add: webhook_request_ids_def ops_def rid_def)
  have wf: "well_formed base" and bi: "base_ids base"
    using assms well_formed_generateTreeFromPathsV2 well_formed_generateTreeFromTags
      base_ids_generateTreeFromPathsV2 base_ids_generateTreeFromTags by auto
  have r: "r = foldl webhook_write g1 ops"
    using ne by (simp add: r_def generateWebhookEndpoints_unfold g1_def ops_def)
  have g1: "nodes g1 = nodes base @ [(webhook_folder_id, Some webhook_folder_label)]"
    "edges g1 = edges base @ [(root_id, webhook_folder_id)]"
    using webhook_folder_first [OF wf bi] by (simp_all add: g1_def)
  have h1: "hasNode g1 webhook_folder_id"
    by (simp add: g1_def hasNode_setEdge)
  have fresh: "webhook_folder_id \<notin> set (node_ids base)"
    using bi by (auto simp: base_ids_iff hasNode_ids)
  have freshr: "rid pm \<notin> set (node_ids base)" for pm
    using bi by (auto simp: base_ids_iff hasNode_ids rid_def)
  have wfr: "well_formed r"
    unfolding r_def using wf by (rule well_formed_generateWebhookEndpoints)
  have sets: "set (node_ids r) = set (node_ids g1) \<union> rid ` set ops"
    "set (edges r) = set (edges g1) \<union> (\<lambda>pm. (webhook_folder_id, rid pm)) ` set ops"
    using webhook_write_sets [OF h1, of ops] by (simp_all add: r rid_def)
  have n1: "set (node_ids g1) = set (node_ids base) \<union> {webhook_folder_id}"
    using g1(1) by (auto simp: node_ids_def)
  show "set (node_ids (generateWebhookEndpoints spec base inc)) =
          set (node_ids base) \<union> {webhook_folder_id} \<union>
          set (webhook_request_ids inc (webhooks spec))"
    using sets(1) n1 by (simp add: r_def ids)
  show "set (edges (generateWebhookEndpoints spec base inc)) =
          set (edges base) \<union> {(root_id, webhook_folder_id)} \<union>
          (\<lambda>x. (webhook_folder_id, x)) ` set (webhook_request_ids inc (webhooks spec))"
    using sets(2) g1(2) by (auto simp: r_def ids)
  show d1: "distinct (node_ids (generateWebhookEndpoints spec base inc))"
    and d2: "distinct (edges (generateWebhookEndpoints spec base inc))"
    using wfr by (simp_all add: well_formed_def r_def)
  show "count_list (node_ids (generateWebhookEndpoints spec base inc)) webhook_folder_id = 1"
    using d1 sets(1) n1 by (intro count_one) (auto simp: r_def)
  show "count_list (edges (generateWebhookEndpoints spec base inc))
          (root_id, webhook_folder_id) = 1"
    using d2 sets(2) g1(2) by (intro count_one) (auto simp: r_def)
  have other: "node r v = node g1 v" if "v \<notin> rid ` set ops" for v
    using that webhook_write_node_other [of v ops g1] by (simp add: r rid_def)
  have nf: "node g1 webhook_folder_id = Some webhook_folder_label"
    by (simp add: g1_def)
  have "webhook_folder_id \<notin> rid ` set ops"
    by (auto simp: rid_def)
  then show "node (generateWebhookEndpoints spec base inc) webhook_folder_id =
          Some webhook_folder_label"
    using other [of webhook_folder_id] nf by (simp add: r_def)
  show "webhook_folder_id \<notin> set (node_ids base)"
    by (rule fresh)
  show "\<forall>x\<in>set (webhook_request_ids inc (webhooks spec)).
          x \<notin> set (node_ids base) \<and>
          (\<exists>l. node (generateWebhookEndpoints spec base inc) x = Some l \<and>
               ntype l = ''webhook~request'')"
    using freshr webhook_write_node_request [of _ ops g1]
    by (auto simp: ids r_def [symmetric] r rid_def)
  show "\<forall>v. hasNode base v \<longrightarrow> node (generateWebhookEndpoints spec base inc) v = node base v"
  proof (intro allI impI)
    fix v assume v: "hasNode base v"
    then have b: "base_id v" using bi by (simp add: base_ids_iff)
    then have "v \<notin> rid ` set ops" by (auto simp: rid_def)
    then have "node r v = node g1 v" by (rule other)
    moreover have "v \<noteq> webhook_folder_id" using b by auto
    then have "node g1 v = node base v" by (simp add: g1_def)
    ultimately show "node (generateWebhookEndpoints spec base inc) v = node base v"
      by (simp add: r_def)
  qed
  show "distinct (webhook_request_ids inc (webhooks spec))"
    if "distinct (map fst (webhooks spec)) \<and>
        (\<forall>w\<in>set (webhooks spec).
           distinct (map fst (snd w)) \<and> (\<forall>e\<in>set (snd w). CHR '':'' \<notin> set (fst e)))"
    using that by (intro distinct_webhook_request_ids) blast+
  have lists: "nodes (generateWebhookEndpoints spec base inc) =
          nodes base @ (webhook_folder_id, Some webhook_folder_label) #
          map (\<lambda>pm. (webhook_request_id (fst pm) (snd pm),
                      Some (webhook_request_label (fst pm) (snd pm))))
            (webhook_operations inc (webhooks spec)) \<and>
        edges (generateWebhookEndpoints spec base inc) =
          edges base @ (root_id, webhook_folder_id) #
          map (\<lambda>x. (webhook_folder_id, x)) (webhook_request_ids inc (webhooks spec))"
    if dist: "distinct (webhook_request_ids inc (webhooks spec))"
  proof -
    have c1: "closed_edges g1"
      using wf unfolding g1_def
      by (intro well_formed_setEdge [THEN well_formed_def [THEN iffD1, THEN conjunct2,
              THEN conjunct2, THEN conjunct1]] well_formed_setNode)
         (simp_all add: well_formed_hasNode_root)
    have d: "distinct (map (\<lambda>pm. webhook_request_id (fst pm) (snd pm)) ops)"
      using dist by (simp add: ids rid_def)
    have f: "\<forall>pm\<in>set ops. \<not> hasNode g1 (webhook_request_id (fst pm) (snd pm))"
      using freshr n1 by (auto simp: hasNode_ids rid_def)
    from webhook_write_lists [OF h1 c1 d f] show ?thesis
      by (simp add: r_def [symmetric] r g1 ops_def webhook_request_ids_def comp_def)
  qed
  show "nodes (generateWebhookEndpoints spec base inc) =
          nodes base @ (webhook_folder_id, Some webhook_folder_label) #
          map (\<lambda>pm. (webhook_request_id (fst pm) (snd pm),
                      Some (webhook_request_label (fst pm) (snd pm))))
            (webhook_operations inc (webhooks spec))"
    if "distinct (webhook_request_ids inc (webhooks spec))"
    using lists [OF that] by simp
  show "edges (generateWebhookEndpoints spec base inc) =
          edges base @ (root_id, webhook_folder_id) #
          map (\<lambda>x. (webhook_folder_id, x)) (webhook_request_ids inc (webhooks spec))"
    if "distinct (webhook_request_ids inc (webhooks spec))"
    using lists [OF that] by simp
qed

subsection \<open>The webhook pass on items whose keys are HTTP methods\<close>

lemma http_method_no_colon: "m \<in> set http_methods \<Longrightarrow> CHR '':'' \<notin> set m"
  by (auto simp: http_methods_def)

lemma webhook_pass_on_http_methods:
  assumes "base = generateTreeFromPathsV2 spec' inc' \<or> base = generateTreeFromTags spec' inc'"
    and "webhooks spec \<noteq> []" and "distinct (map fst (webhooks spec))"
    and "\<forall>w\<in>set (webhooks spec).
           distinct (map fst (snd w)) \<and> (\<forall>e\<in>set (snd w). fst e \<in> set http_methods)"
  shows "nodes (generateWebhookEndpoints spec base inc) =
           nodes base @ (webhook_folder_id, Some webhook_folder_label) #
           map (\<lambda>pm. (webhook_request_id (fst pm) (snd pm),
                       Some (webhook_request_label (fst pm) (snd pm))))
             (webhook_operations inc (webhooks spec)) \<and>
         edges (generateWebhookEndpoints spec base inc) =
           edges base @ (root_id, webhook_folder_id) #
           map (\<lambda>x. (webhook_folder_id, x)) (webhook_request_ids inc (webhooks spec)) \<and>
         distinct (webhook_request_ids inc (webhooks spec))"
proof -
  have "\<forall>w\<in>set (webhooks spec).
          distinct (map fst (snd w)) \<and> (\<forall>e\<in>set (snd w). CHR '':'' \<notin> set (fst e))"
    using assms(4) http_method_no_colon by blast
  then have d: "distinct (webhook_request_ids inc (webhooks spec))"
    using assms(3) by (intro distinct_webhook_request_ids)
  show ?thesis
    using webhook_pass_characterised [OF assms(1), of spec inc] assms(2) d
    by blast
qed

subsection \<open>What the callbacks write for an operation that is not skipped\<close>

lemma single_segment_method_writes:
  "ALLOWED_HTTP_METHODS m \<Longrightarrow>
   node (single_segment_method True cp segs g (m, d)) (path_request_id (segs ! 0) m) =
     Some (path_request_label cp m (segs ! 0)) \<and>
   hasEdge (single_segment_method True cp segs g (m, d)) (path_folder_id (segs ! 0))
     (path_request_id (segs ! 0) m)"
  by (simp add: single_segment_method_def Let_def)

lemma last_segment_method_writes:
  "ALLOWED_HTTP_METHODS m \<Longrightarrow>
   node (last_segment_method True cp segs i g (m, d))
     (path_request_id (join ''/'' (take (i + 1) segs)) m) =
     Some (path_request_label cp m (join ''/'' (take (i + 1) segs))) \<and>
   hasEdge (last_segment_method True cp segs i g (m, d))
     (path_folder_id (join ''/'' (take (i + 1) segs)))
     (path_request_id (join ''/'' (take (i + 1) segs)) m)"
  by (simp add: last_segment_method_def Let_def)

lemma webhook_method_step_writes:
  "node (webhook_method_step True p g (m, d)) (webhook_request_id p m) =
     Some (webhook_request_label p m) \<and>
   hasEdge (webhook_method_step True p g (m, d)) webhook_folder_id (webhook_request_id p m)"
  by (simp add: webhook_method_step_def Let_def)

lemma untagged_request_writes:
  "node (untagged_request p m g) (untagged_request_id p m) = Some (untagged_request_label p m) \<and>
   hasEdge (untagged_request p m g) root_id (untagged_request_id p m)"
  by (simp add: untagged_request_def)

lemma tag_request_step_writes:
  "node (tag_request_step tdm p m g t) (tag_request_id t p m) = Some (tag_request_label t p m) \<and>
   hasEdge (tag_request_step tdm p m g t) (tag_folder_id t) (tag_request_id t p m)"
  by (simp add: tag_request_step_def Let_def)

lemma tag_request_step_keeps_written:
  assumes "node g (tag_request_id t p m) = Some (tag_request_label t p m) \<and>
           hasEdge g (tag_folder_id t) (tag_request_id t p m)"
  shows "node (tag_request_step tdm p m g t') (tag_request_id t p m) =
           Some (tag_request_label t p m) \<and>
         hasEdge (tag_request_step tdm p m g t') (tag_folder_id t) (tag_request_id t p m)"
proof -
  have h: "hasNode g (tag_request_id t p m)"
    using assms by (simp add: node_Some_hasNode)
  show ?thesis
    using assms h
    by (auto simp: tag_request_step_def Let_def tag_request_id_inject_tag)
qed

lemma tags_method_step_writes:
  assumes "ALLOWED_HTTP_METHODS m" and "op_tags d = Some ts" and "t \<in> set ts"
  shows "node (tags_method_step True tdm p g (m, d)) (tag_request_id t p m) =
           Some (tag_request_label t p m) \<and>
         hasEdge (tags_method_step True tdm p g (m, d)) (tag_folder_id t) (tag_request_id t p m)"
proof -
  have ne: "0 < length ts" using assms(3) by (cases ts) auto
  have "node (foldl (tag_request_step tdm p m) g ts) (tag_request_id t p m) =
           Some (tag_request_label t p m) \<and>
        hasEdge (foldl (tag_request_step tdm p m) g ts) (tag_folder_id t) (tag_request_id t p m)"
    by (rule foldl_establishes [where x = t])
       (simp_all only: assms(3) tag_request_step_writes tag_request_step_keeps_written simp_thms)
  then show ?thesis
    using assms(1,2) ne by (simp add: tags_method_step_def Let_def)
qed

lemma tags_method_step_writes_untagged:
  assumes "ALLOWED_HTTP_METHODS m" and "op_tags d = None \<or> op_tags d = Some []"
  shows "node (tags_method_step True tdm p g (m, d)) (untagged_request_id p m) =
           Some (untagged_request_label p m) \<and>
         hasEdge (tags_method_step True tdm p g (m, d)) root_id (untagged_request_id p m)"
  using assms by (auto simp: tags_method_step_def Let_def untagged_request_writes)

subsection \<open>C1: one folder per shared prefix\<close>

text \<open>
  Claim C1 says that, whenever two declared paths share a prefix of segments, the tree of
  the path strategy holds exactly one folder node for the identifier of that prefix.  A
  folder is created on the way through an inner segment or, at the last segment of a path,
  inside the callback of an operation that passes the filters.  Two paths that both end at
  the prefix they share (\<^verbatim>\<open>/user\<close> and \<^verbatim>\<open>/user/\<close> split into the one segment \<open>user\<close>) and
  whose operations are all filtered out therefore leave the tree without a folder for it.
\<close>

theorem shared_prefix_without_folder:
  "pathSplit ''/user'' = [''user''] \<and> pathSplit ''/user/'' = [''user''] \<and>
   map fst (paths slash_filtered_spec) = [''/user'', ''/user/''] \<and>
   generateTreeFromPathsV2 slash_filtered_spec False = root_tree \<and>
   count_list (node_ids (generateTreeFromPathsV2 slash_filtered_spec False))
     (path_folder_id ''user'') = 0"
  by code_simp

text \<open>
  Claim C1 as amended.  Let two declared paths agree on their first \<open>i + 1\<close> segments; both
  derive the same folder identifier for that prefix.  A path reaches the prefix when it
  begins with it and either continues beyond it or ends there with an operation that passes
  the filters; each of the two paths does so as soon as it is longer than the prefix or has
  such an operation.  After any number of the declared paths the folder is in the tree
  exactly when one of the paths processed so far reaches the prefix: the first such path
  creates it.  From then on the folder keeps its record, and every node and edge keeps its
  place, whatever paths follow.  The returned tree holds exactly one node under the
  identifier when some declared path reaches the prefix, with the record of the prefix
  (named after its last segment) and exactly one edge from its parent, and none when no
  declared path does, which needs every declared path with this prefix to end at it with
  all its operations filtered out.  In the whole run the store is called once to set the
  folder and once to set the edge from its parent (never, when no path reaches the prefix):
  later paths reuse both.
\<close>

theorem shared_prefix_folder_is_single:
  fixes spec :: "'a openapi_scheme" and inc :: bool and cp cq :: string and i :: nat
  defines "pre \<equiv> take (i + 1) (pathSplit cp)"
    and "f \<equiv> folder_at (pathSplit cp) i"
    and "t \<equiv> generateTreeFromPathsV2 spec inc"
    and "cs \<equiv> snd (generateTreeFromPathsV2_log spec inc)"
    and "run \<equiv> foldl (path_step inc (paths spec)) root_tree"
  assumes "cp \<in> fst ` set (paths spec)" and "cq \<in> fst ` set (paths spec)"
    and "i < length (pathSplit cp)" and "i < length (pathSplit cq)"
    and "take (i + 1) (pathSplit cp) = take (i + 1) (pathSplit cq)"
  shows "folder_at (pathSplit cq) i = f \<and>
         (\<forall>ks ks'. map fst (paths spec) = ks @ ks' \<longrightarrow>
            (hasNode (run ks) f \<longleftrightarrow> (\<exists>c\<in>set ks. reaches inc (paths spec) c pre)) \<and>
            (hasNode (run ks) f \<longrightarrow> node t f = node (run ks) f \<and> grows (run ks) t)) \<and>
         (reaches inc (paths spec) cp pre \<longleftrightarrow>
            i + 1 < length (pathSplit cp) \<or>
            \<not> list_all (skipped inc) (methods_of (paths spec) cp)) \<and>
         (reaches inc (paths spec) cq pre \<longleftrightarrow>
            i + 1 < length (pathSplit cq) \<or>
            \<not> list_all (skipped inc) (methods_of (paths spec) cq)) \<and>
         count_list (node_ids t) f =
           (if \<exists>c\<in>fst ` set (paths spec). reaches inc (paths spec) c pre then 1 else 0) \<and>
         (hasNode t f \<longrightarrow>
            node t f = Some (path_folder_label (pathSplit cp ! i)
                               (pathIdentifier_at (pathSplit cp) i)) \<and>
            count_list (edges t) (parent_at (pathSplit cp) i, f) = 1) \<and>
         length (node_writes cs f) = count_list (node_ids t) f \<and>
         count_list cs (SetEdge (parent_at (pathSplit cp) i) f) = count_list (node_ids t) f"
proof -
  have ok: "segs_ok pre"
    unfolding pre_def using segs_ok_pathSplit by (rule segs_ok_take) simp
  have ne: "pre \<noteq> []"
    using assms(8) by (auto simp: pre_def)
  have len: "length pre = i + 1"
    using assms(8) by (simp add: pre_def)
  have f: "f = path_folder_id (join ''/'' pre)"
    by (simp add: f_def folder_at_def pathIdentifier_at_def pre_def)
  have same: "folder_at (pathSplit cq) i = f"
    unfolding f_def using assms(10) by (rule folder_at_cong [symmetric])
  have t: "t = run (map fst (paths spec))"
    by (simp add: t_def run_def generateTreeFromPathsV2_loop)
  have iff: "hasNode (run ks) f \<longleftrightarrow> (\<exists>c\<in>set ks. reaches inc (paths spec) c pre)" for ks
    unfolding run_def f by (rule folder_iff_reached [OF ok ne])
  have keep: "node t f = node (run ks) f \<and> grows (run ks) t"
    if k: "map fst (paths spec) = ks @ ks'" and h: "hasNode (run ks) f" for ks ks'
  proof -
    have b: "t = foldl (path_step inc (paths spec)) (run ks) ks'"
      by (simp add: t k run_def)
    have "node t f = node (run ks) f"
      unfolding b using h by (rule node_path_loop_old) (simp add: f)
    moreover have "grows (run ks) t"
      unfolding b by (rule grows_foldl) (rule grows_path_step)
    ultimately show ?thesis by simp
  qed
  have rp: "reaches inc (paths spec) cp pre \<longleftrightarrow>
              i + 1 < length (pathSplit cp) \<or>
              \<not> list_all (skipped inc) (methods_of (paths spec) cp)"
    using assms(8) ne len by (auto simp: reaches_def pre_def)
  have rq: "reaches inc (paths spec) cq pre \<longleftrightarrow>
              i + 1 < length (pathSplit cq) \<or>
              \<not> list_all (skipped inc) (methods_of (paths spec) cq)"
    using assms(9,10) ne len by (auto simp: reaches_def pre_def)
  have wf: "well_formed t"
    unfolding t_def by (rule well_formed_generateTreeFromPathsV2)
  then have d: "distinct (node_ids t)" "distinct (edges t)"
    by (simp_all add: well_formed_def)
  have h: "hasNode t f \<longleftrightarrow> (\<exists>c\<in>fst ` set (paths spec). reaches inc (paths spec) c pre)"
    using iff [of "map fst (paths spec)"] by (simp add: t)
  have cnt: "count_list (node_ids t) f =
      (if \<exists>c\<in>fst ` set (paths spec). reaches inc (paths spec) c pre then 1 else 0)"
    using h d(1) by (auto simp: count_one hasNode_ids count_list_0_iff)
  have ex: "folder_exact t"
    unfolding t_def by (rule folder_exact_generateTreeFromPathsV2)
  have rec: "node t f = Some (path_folder_label (pathSplit cp ! i)
                                (pathIdentifier_at (pathSplit cp) i)) \<and>
             hasEdge t (parent_at (pathSplit cp) i) f" if "hasNode t f"
    using ex that assms(8) segs_ok_pathSplit [of cp] unfolding f_def folder_exact_def by blast
  then have rec1: "node t f = Some (path_folder_label (pathSplit cp ! i)
                                (pathIdentifier_at (pathSplit cp) i)) \<and>
             count_list (edges t) (parent_at (pathSplit cp) i, f) = 1" if "hasNode t f"
    using that d(2) by (simp add: count_one hasEdge_def)
  have calls: "length (node_writes cs f) = count_list (node_ids t) f \<and>
               count_list cs (SetEdge (parent_at (pathSplit cp) i) f) = count_list (node_ids t) f"
    unfolding cs_def t_def f
    by (rule folder_calls_of_the_path_strategy) (use rec in \<open>simp add: t_def f\<close>)
  show ?thesis
    using same iff keep rp rq cnt rec1 calls by blast
qed

theorem shared_prefix_folder_is_single_witness:
  "''/user'' \<in> fst ` set (paths user_spec) \<and> ''/user/{id}'' \<in> fst ` set (paths user_spec) \<and>
   0 < length (pathSplit ''/user'') \<and> 0 < length (pathSplit ''/user/{id}'') \<and>
   take (0 + 1) (pathSplit ''/user'') = take (0 + 1) (pathSplit ''/user/{id}'') \<and>
   folder_at (pathSplit ''/user'') 0 = ''path:folder:user'' \<and>
   folder_at (pathSplit ''/user/{id}'') 0 = ''path:folder:user'' \<and>
   map fst (paths user_spec) = [''/user''] @ [''/user/{id}''] \<and>
   reaches False (paths user_spec) ''/user'' (take (0 + 1) (pathSplit ''/user'')) \<and>
   hasNode (foldl (path_step False (paths user_spec)) root_tree [''/user'']) ''path:folder:user'' \<and>
   node (generateTreeFromPathsV2 user_spec False) ''path:folder:user'' =
     node (foldl (path_step False (paths user_spec)) root_tree [''/user'']) ''path:folder:user'' \<and>
   count_list (node_ids (generateTreeFromPathsV2 user_spec False)) ''path:folder:user'' = 1 \<and>
   node (generateTreeFromPathsV2 user_spec False) ''path:folder:user'' =
     Some (path_folder_label ''user'' ''user'') \<and>
   count_list (edges (generateTreeFromPathsV2 user_spec False))
     (''root:collection'', ''path:folder:user'') = 1 \<and>
   length (node_writes (snd (generateTreeFromPathsV2_log user_spec False)) ''path:folder:user'') = 1 \<and>
   count_list (snd (generateTreeFromPathsV2_log user_spec False))
     (SetEdge ''root:collection'' ''path:folder:user'') = 1"
proof -
  have p: "pathSplit ''/user'' = [''user'']" and q: "pathSplit ''/user/{id}'' = [''user'', ''{id}'']"
    by code_simp+
  have a: "''/user'' \<in> fst ` set (paths user_spec)"
    and b: "''/user/{id}'' \<in> fst ` set (paths user_spec)"
    by (simp_all add: user_spec_def)
  have c: "0 < length (pathSplit ''/user'')" and d: "0 < length (pathSplit ''/user/{id}'')"
    by (simp_all add: p q)
  have e: "take (0 + 1) (pathSplit ''/user'') = take (0 + 1) (pathSplit ''/user/{id}'')"
    by (simp add: p q)
  have f: "folder_at (pathSplit ''/user'') 0 = ''path:folder:user''"
    "folder_at (pathSplit ''/user/{id}'') 0 = ''path:folder:user''"
    "parent_at (pathSplit ''/user'') 0 = ''root:collection''"
    "pathIdentifier_at (pathSplit ''/user'') 0 = ''user''"
    "pathSplit ''/user'' ! 0 = ''user''"
    by (simp_all add: p q folder_at_def parent_at_def pathIdentifier_at_def path_folder_id_def
        root_id_def)
  have k: "map fst (paths user_spec) = [''/user''] @ [''/user/{id}'']"
    by (simp add: user_spec_def)
  have r: "reaches False (paths user_spec) ''/user'' (take (0 + 1) (pathSplit ''/user''))"
    by code_simp
  have r': "\<exists>c\<in>set [''/user'']. reaches False (paths user_spec) c (take (0 + 1) (pathSplit ''/user''))"
    using r by simp
  have r'': "\<exists>c\<in>fst ` set (paths user_spec).
               reaches False (paths user_spec) c (take (0 + 1) (pathSplit ''/user''))"
    using r a by blast
  note th = shared_prefix_folder_is_single [OF a b c d e, of False, unfolded f]
  have h: "hasNode (foldl (path_step False (paths user_spec)) root_tree [''/user''])
             ''path:folder:user''"
    using th k r' by blast
  have n: "node (generateTreeFromPathsV2 user_spec False) ''path:folder:user'' =
           node (foldl (path_step False (paths user_spec)) root_tree [''/user''])
             ''path:folder:user''"
    using th k h by blast
  have o: "count_list (node_ids (generateTreeFromPathsV2 user_spec False)) ''path:folder:user'' = 1"
    using th r'' by simp
  then have hn: "hasNode (generateTreeFromPathsV2 user_spec False) ''path:folder:user''"
    by (metis count_list_0_iff hasNode_ids zero_neq_one)
  have g: "node (generateTreeFromPathsV2 user_spec False) ''path:folder:user'' =
             Some (path_folder_label ''user'' ''user'') \<and>
           count_list (edges (generateTreeFromPathsV2 user_spec False))
             (''root:collection'', ''path:folder:user'') = 1"
    using th hn by blast
  have w: "length (node_writes (snd (generateTreeFromPathsV2_log user_spec False))
             ''path:folder:user'') = 1 \<and>
           count_list (snd (generateTreeFromPathsV2_log user_spec False))
             (SetEdge ''root:collection'' ''path:folder:user'') = 1"
    using th o by simp
  show ?thesis
    using a b c d e f(1,2) k r h n o g w by blast
qed

subsection \<open>C2: an operation with two tags\<close>




subsection \<open>C3: keys that are not HTTP methods\<close>

text \<open>
  Claim C3 says that a key of a path item or of a webhook item that is not one of the nine
  allowed HTTP methods never produces a node or an edge.  Both strategies test the key
  against \<^verbatim>\<open>ALLOWED_HTTP_METHODS\<close> before anything else; the callback over a webhook item
  has no such test.  For the webhook \<open>newPet\<close> with the keys \<^verbatim>\<open>parameters\<close> and \<^verbatim>\<open>post\<close> the
  entry point therefore returns a tree with a request node and an edge for \<^verbatim>\<open>parameters\<close>.
\<close>

theorem webhook_key_outside_allow_list_yields_node:
  "\<not> ALLOWED_HTTP_METHODS ''parameters'' \<and>
   generateSkeletonTreeFromOpenAPI webhook_spec paths_options =
     Inr \<lparr>nodes =
            [(''root:collection'', Some root_label),
             (''path~webhook:folder'', Some webhook_folder_label),
             (''path~webhook:newPet:parameters'',
              Some (webhook_request_label ''newPet'' ''parameters'')),
             (''path~webhook:newPet:post'', Some (webhook_request_label ''newPet'' ''post''))],
          edges =
            [(''root:collection'', ''path~webhook:folder''),
             (''path~webhook:folder'', ''path~webhook:newPet:parameters''),
             (''path~webhook:folder'', ''path~webhook:newPet:post'')]\<rparr>"
  by code_simp

subsection \<open>C4: an invalid folder strategy\<close>

text \<open>
  Claim C4.  For every specification and every configuration whose \<^verbatim>\<open>folderStrategy\<close> is
  neither \<^verbatim>\<open>paths\<close> nor \<^verbatim>\<open>tags\<close>, the entry point raises the configuration error; the
  \<^verbatim>\<open>switch\<close> throws before either strategy has created its graph, so the result is the
  error and never a tree, complete or partial.
\<close>

theorem invalid_folderStrategy_raises:
  assumes "folderStrategy opts \<noteq> ''paths''" and "folderStrategy opts \<noteq> ''tags''"
  shows "generateSkeletonTreeFromOpenAPI spec opts =
           Inl (Error ''generateSkeletonTreeFromOpenAPI~folderStrategy not valid'') \<and>
         (\<forall>t. generateSkeletonTreeFromOpenAPI spec opts \<noteq> Inr t)"
  using assms by (simp add: generateSkeletonTreeFromOpenAPI_def)

theorem invalid_folderStrategy_raises_witness:
  "folderStrategy misspelt_options \<noteq> ''paths'' \<and>
   folderStrategy misspelt_options \<noteq> ''tags'' \<and>
   generateSkeletonTreeFromOpenAPI user_spec misspelt_options =
     Inl (Error ''generateSkeletonTreeFromOpenAPI~folderStrategy not valid'')"
proof -
  have a: "folderStrategy misspelt_options \<noteq> ''paths''"
    by (simp add: misspelt_options_def)
  have b: "folderStrategy misspelt_options \<noteq> ''tags''"
    by (simp add: misspelt_options_def)
  show ?thesis
    using a b invalid_folderStrategy_raises [OF a b, of user_spec] by simp
qed

subsection \<open>C5: deprecated operations\<close>

text \<open>
  Claim C5.  For every operation record marked deprecated, in the path strategy (on a path
  with one segment and at the last segment of a longer path), in the tag strategy and
  among the webhooks: when deprecated operations are not included the
  callback returns at once, so the operation produces no node and no edge and the tree is
  what it was; when they are included the callback does exactly what it does for the same
  operation without the mark, so it writes the same node (identifier, type, meta) and the
  same edge.  Hence a run that excludes deprecated operations builds the tree of the
  specification from which they have been removed, and a run that includes them builds the
  tree of the specification in which no operation is marked.  The node is really produced:
  when deprecated operations are included and the method is an allowed verb, the tree that
  the callback returns holds the request node of the operation with its record and the edge
  from its folder to it (one request under each tag of the operation in the tag strategy,
  a request under the root when it has no tag, a request under the webhook folder for a
  webhook).
\<close>

theorem deprecated_operation_filtering:
  assumes "deprecated d"
  shows "single_segment_method False cp segs g (m, d) = g \<and>
         last_segment_method False cp segs i g (m, d) = g \<and>
         tags_method_step False tdm p g (m, d) = g \<and>
         webhook_method_step False p g (m, d) = g \<and>
         single_segment_method True cp segs g (m, d) =
           single_segment_method b cp segs g (m, d\<lparr>deprecated := False\<rparr>) \<and>
         last_segment_method True cp segs i g (m, d) =
           last_segment_method b cp segs i g (m, d\<lparr>deprecated := False\<rparr>) \<and>
         tags_method_step True tdm p g (m, d) =
           tags_method_step b tdm p g (m, d\<lparr>deprecated := False\<rparr>) \<and>
         webhook_method_step True p g (m, d) =
           webhook_method_step b p g (m, d\<lparr>deprecated := False\<rparr>) \<and>
         (\<not> includeDeprecated opts \<longrightarrow>
            generateSkeletonTreeFromOpenAPI spec opts =
            generateSkeletonTreeFromOpenAPI (without_deprecated_operations spec) opts) \<and>
         (includeDeprecated opts \<longrightarrow>
            generateSkeletonTreeFromOpenAPI spec opts =
            generateSkeletonTreeFromOpenAPI (without_deprecation_marks spec)
              (opts\<lparr>includeDeprecated := b\<rparr>)) \<and>
         (ALLOWED_HTTP_METHODS m \<longrightarrow>
            node (single_segment_method True cp segs g (m, d)) (path_request_id (segs ! 0) m) =
              Some (path_request_label cp m (segs ! 0)) \<and>
            hasEdge (single_segment_method True cp segs g (m, d)) (path_folder_id (segs ! 0))
              (path_request_id (segs ! 0) m) \<and>
            node (last_segment_method True cp segs i g (m, d))
              (path_request_id (join ''/'' (take (i + 1) segs)) m) =
              Some (path_request_label cp m (join ''/'' (take (i + 1) segs))) \<and>
            hasEdge (last_segment_method True cp segs i g (m, d))
              (path_folder_id (join ''/'' (take (i + 1) segs)))
              (path_request_id (join ''/'' (take (i + 1) segs)) m) \<and>
            (\<forall>ts t. op_tags d = Some ts \<and> t \<in> set ts \<longrightarrow>
               node (tags_method_step True tdm p g (m, d)) (tag_request_id t p m) =
                 Some (tag_request_label t p m) \<and>
               hasEdge (tags_method_step True tdm p g (m, d)) (tag_folder_id t)
                 (tag_request_id t p m)) \<and>
            (op_tags d = None \<or> op_tags d = Some [] \<longrightarrow>
               node (tags_method_step True tdm p g (m, d)) (untagged_request_id p m) =
                 Some (untagged_request_label p m) \<and>
               hasEdge (tags_method_step True tdm p g (m, d)) root_id
                 (untagged_request_id p m)) \<and>
            node (webhook_method_step True p g (m, d)) (webhook_request_id p m) =
              Some (webhook_request_label p m) \<and>
            hasEdge (webhook_method_step True p g (m, d)) webhook_folder_id
              (webhook_request_id p m))"
proof -
  have "generateSkeletonTreeFromOpenAPI spec opts =
        generateSkeletonTreeFromOpenAPI (without_deprecated_operations spec) opts"
    if "\<not> includeDeprecated opts"
    using that generateTreeFromPathsV2_excluded [of spec]
      generateTreeFromTags_excluded [of spec]
      generateWebhookEndpoints_excluded [of spec]
    by (simp add: generateSkeletonTreeFromOpenAPI_def)
  moreover
  have "generateSkeletonTreeFromOpenAPI spec opts =
        generateSkeletonTreeFromOpenAPI (without_deprecation_marks spec)
          (opts\<lparr>includeDeprecated := b\<rparr>)" if "includeDeprecated opts"
    using that
    by (simp add: generateSkeletonTreeFromOpenAPI_def
        generateTreeFromPathsV2_included [where b = b]
        generateTreeFromTags_included [where b = b]
        generateWebhookEndpoints_included [where b = b])
  moreover
  have "node (tags_method_step True tdm p g (m, d)) (tag_request_id t p m) =
          Some (tag_request_label t p m) \<and>
        hasEdge (tags_method_step True tdm p g (m, d)) (tag_folder_id t) (tag_request_id t p m)"
    if "ALLOWED_HTTP_METHODS m" and "op_tags d = Some ts" and "t \<in> set ts" for ts t
    using that by (rule tags_method_step_writes)
  moreover
  have "node (tags_method_step True tdm p g (m, d)) (untagged_request_id p m) =
          Some (untagged_request_label p m) \<and>
        hasEdge (tags_method_step True tdm p g (m, d)) root_id (untagged_request_id p m)"
    if "ALLOWED_HTTP_METHODS m" and "op_tags d = None \<or> op_tags d = Some []"
    using that by (rule tags_method_step_writes_untagged)
  ultimately show ?thesis
    using assms single_segment_method_writes [of m cp segs g d]
      last_segment_method_writes [of m cp segs i g d]
      webhook_method_step_writes [of p g m d]
    by (simp add: single_segment_method_deprecated last_segment_method_deprecated
        tags_method_step_deprecated webhook_method_step_deprecated
        single_segment_method_included [where b = b] last_segment_method_included [where b = b]
        tags_method_step_included [where b = b] webhook_method_step_included [where b = b])
qed

theorem deprecated_operation_filtering_witness:
  "deprecated deprecated_op \<and>
   single_segment_method False ''/user'' [''user''] root_tree (''get'', deprecated_op) =
     root_tree \<and>
   last_segment_method False ''/user/{id}'' [''user'', ''{id}''] 1 root_tree
     (''get'', deprecated_op) = root_tree \<and>
   tags_method_step False [] ''/user'' root_tree (''get'', deprecated_op) = root_tree \<and>
   webhook_method_step False ''newPet'' root_tree (''post'', deprecated_op) = root_tree \<and>
   single_segment_method True ''/user'' [''user''] root_tree (''get'', deprecated_op) =
     single_segment_method False ''/user'' [''user''] root_tree (''get'', plain_op) \<and>
   last_segment_method True ''/user/{id}'' [''user'', ''{id}''] 1 root_tree
     (''get'', deprecated_op) =
     last_segment_method False ''/user/{id}'' [''user'', ''{id}''] 1 root_tree
       (''get'', plain_op) \<and>
   \<not> includeDeprecated paths_options \<and>
   generateSkeletonTreeFromOpenAPI deprecated_spec paths_options =
     generateSkeletonTreeFromOpenAPI (without_deprecated_operations deprecated_spec)
       paths_options \<and>
   includeDeprecated including_options \<and>
   generateSkeletonTreeFromOpenAPI deprecated_spec including_options =
     generateSkeletonTreeFromOpenAPI (without_deprecation_marks deprecated_spec)
       (including_options\<lparr>includeDeprecated := False\<rparr>) \<and>
   ALLOWED_HTTP_METHODS ''get'' \<and>
   node (single_segment_method True ''/user'' [''user''] root_tree (''get'', deprecated_op))
     (path_request_id ''user'' ''get'') = Some (path_request_label ''/user'' ''get'' ''user'') \<and>
   hasEdge (single_segment_method True ''/user'' [''user''] root_tree (''get'', deprecated_op))
     (path_folder_id ''user'') (path_request_id ''user'' ''get'') \<and>
   node (last_segment_method True ''/user/{id}'' [''user'', ''{id}''] 1 root_tree
           (''get'', deprecated_op))
     (path_request_id ''user/{id}'' ''get'') =
     Some (path_request_label ''/user/{id}'' ''get'' ''user/{id}'') \<and>
   hasEdge (last_segment_method True ''/user/{id}'' [''user'', ''{id}''] 1 root_tree
              (''get'', deprecated_op))
     (path_folder_id ''user/{id}'') (path_request_id ''user/{id}'' ''get'') \<and>
   deprecated (pet_store_op\<lparr>deprecated := True\<rparr>) \<and>
   op_tags (pet_store_op\<lparr>deprecated := True\<rparr>) = Some [''Pet'', ''Store''] \<and>
   node (tags_method_step True [] ''/user'' root_tree
           (''get'', pet_store_op\<lparr>deprecated := True\<rparr>))
     (tag_request_id ''Store'' ''/user'' ''get'') =
     Some (tag_request_label ''Store'' ''/user'' ''get'') \<and>
   hasEdge (tags_method_step True [] ''/user'' root_tree
              (''get'', pet_store_op\<lparr>deprecated := True\<rparr>))
     (tag_folder_id ''Store'') (tag_request_id ''Store'' ''/user'' ''get'') \<and>
   op_tags deprecated_op = None \<and>
   node (tags_method_step True [] ''/user'' root_tree (''get'', deprecated_op))
     (untagged_request_id ''/user'' ''get'') = Some (untagged_request_label ''/user'' ''get'') \<and>
   hasEdge (tags_method_step True [] ''/user'' root_tree (''get'', deprecated_op))
     root_id (untagged_request_id ''/user'' ''get'') \<and>
   node (webhook_method_step True ''newPet'' root_tree (''get'', deprecated_op))
     (webhook_request_id ''newPet'' ''get'') = Some (webhook_request_label ''newPet'' ''get'') \<and>
   hasEdge (webhook_method_step True ''newPet'' root_tree (''get'', deprecated_op))
     webhook_folder_id (webhook_request_id ''newPet'' ''get'')"
proof -
  have d: "deprecated deprecated_op"
    by (simp add: deprecated_op_def)
  have u: "deprecated_op\<lparr>deprecated := False\<rparr> = plain_op"
    by (simp add: deprecated_op_def plain_op_def)
  have x: "\<not> includeDeprecated paths_options"
    by (simp add: paths_options_def)
  have i: "includeDeprecated including_options"
    by (simp add: including_options_def)
  have g: "ALLOWED_HTTP_METHODS ''get''"
    by (simp add: ALLOWED_HTTP_METHODS_def http_methods_def)
  have n: "op_tags deprecated_op = None"
    by (simp add: deprecated_op_def)
  have dt: "deprecated (pet_store_op\<lparr>deprecated := True\<rparr>)"
    by simp
  have ts: "op_tags (pet_store_op\<lparr>deprecated := True\<rparr>) = Some [''Pet'', ''Store'']"
    by (simp add: pet_store_op_def)
  have mem: "''Store'' \<in> set [''Pet'', ''Store'']"
    by simp
  have e1: "[''user''] ! 0 = ''user''"
    by simp
  have e2: "join ''/'' (take (1 + 1) [''user'', ''{id}'']) = ''user/{id}''"
    by simp
  have a: "generateSkeletonTreeFromOpenAPI deprecated_spec paths_options =
           generateSkeletonTreeFromOpenAPI (without_deprecated_operations deprecated_spec)
             paths_options"
    using x deprecated_operation_filtering [OF d, where spec = deprecated_spec
        and opts = paths_options]
    by blast
  have w: "webhook_method_step False ''newPet'' root_tree (''post'', deprecated_op) = root_tree"
    using deprecated_operation_filtering [OF d, where cp = "''/user''" and segs = "[''user'']"
        and i = 0 and g = root_tree and m = "''post''" and tdm = "[]" and p = "''newPet''"
        and b = False and opts = including_options and spec = deprecated_spec]
    by blast
  have h: "node (webhook_method_step True ''newPet'' root_tree (''get'', deprecated_op))
             (webhook_request_id ''newPet'' ''get'') =
             Some (webhook_request_label ''newPet'' ''get'') \<and>
           hasEdge (webhook_method_step True ''newPet'' root_tree (''get'', deprecated_op))
             webhook_folder_id (webhook_request_id ''newPet'' ''get'')"
    using g deprecated_operation_filtering [OF d, where cp = "''/user''" and segs = "[''user'']"
        and i = 0 and g = root_tree and m = "''get''" and tdm = "[]" and p = "''newPet''"
        and b = False and opts = including_options and spec = deprecated_spec]
    by blast
  have t: "node (tags_method_step True [] ''/user'' root_tree
                   (''get'', pet_store_op\<lparr>deprecated := True\<rparr>))
             (tag_request_id ''Store'' ''/user'' ''get'') =
             Some (tag_request_label ''Store'' ''/user'' ''get'') \<and>
           hasEdge (tags_method_step True [] ''/user'' root_tree
                      (''get'', pet_store_op\<lparr>deprecated := True\<rparr>))
             (tag_folder_id ''Store'') (tag_request_id ''Store'' ''/user'' ''get'')"
    using g ts mem deprecated_operation_filtering [OF dt, where cp = "''/user''"
        and segs = "[''user'']"
        and i = 0 and g = root_tree and m = "''get''" and tdm = "[]" and p = "''/user''"
        and b = False and opts = including_options and spec = deprecated_spec]
    by blast
  have s: "single_segment_method False ''/user'' [''user''] root_tree (''get'', deprecated_op) =
             root_tree \<and>
           tags_method_step False [] ''/user'' root_tree (''get'', deprecated_op) = root_tree \<and>
           single_segment_method True ''/user'' [''user''] root_tree (''get'', deprecated_op) =
             single_segment_method False ''/user'' [''user''] root_tree (''get'', plain_op) \<and>
           generateSkeletonTreeFromOpenAPI deprecated_spec including_options =
             generateSkeletonTreeFromOpenAPI (without_deprecation_marks deprecated_spec)
               (including_options\<lparr>includeDeprecated := False\<rparr>) \<and>
           node (single_segment_method True ''/user'' [''user''] root_tree
                   (''get'', deprecated_op))
             (path_request_id ''user'' ''get'') =
             Some (path_request_label ''/user'' ''get'' ''user'') \<and>
           hasEdge (single_segment_method True ''/user'' [''user''] root_tree
                      (''get'', deprecated_op))
             (path_folder_id ''user'') (path_request_id ''user'' ''get'') \<and>
           node (tags_method_step True [] ''/user'' root_tree (''get'', deprecated_op))
             (untagged_request_id ''/user'' ''get'') =
             Some (untagged_request_label ''/user'' ''get'') \<and>
           hasEdge (tags_method_step True [] ''/user'' root_tree (''get'', deprecated_op))
             root_id (untagged_request_id ''/user'' ''get'')"
    using g n i deprecated_operation_filtering [OF d, where cp = "''/user''"
        and segs = "[''user'']"
        and i = 0 and g = root_tree and m = "''get''" and tdm = "[]" and p = "''/user''"
        and b = False and opts = including_options and spec = deprecated_spec, unfolded u e1]
    by blast
  have l: "last_segment_method False ''/user/{id}'' [''user'', ''{id}''] 1 root_tree
             (''get'', deprecated_op) = root_tree \<and>
           last_segment_method True ''/user/{id}'' [''user'', ''{id}''] 1 root_tree
             (''get'', deprecated_op) =
             last_segment_method False ''/user/{id}'' [''user'', ''{id}''] 1 root_tree
               (''get'', plain_op) \<and>
           node (last_segment_method True ''/user/{id}'' [''user'', ''{id}''] 1 root_tree
                   (''get'', deprecated_op))
             (path_request_id ''user/{id}'' ''get'') =
             Some (path_request_label ''/user/{id}'' ''get'' ''user/{id}'') \<and>
           hasEdge (last_segment_method True ''/user/{id}'' [''user'', ''{id}''] 1 root_tree
                      (''get'', deprecated_op))
             (path_folder_id ''user/{id}'') (path_request_id ''user/{id}'' ''get'')"
    using g deprecated_operation_filtering [OF d, where cp = "''/user/{id}''"
        and segs = "[''user'', ''{id}'']"
        and i = 1 and g = root_tree and m = "''get''" and tdm = "[]" and p = "''/user''"
        and b = False and opts = including_options and spec = deprecated_spec, unfolded u e2]
    by blast
  show ?thesis
    using d x i a w g n dt ts h t s l by blast
qed

subsection \<open>C6: the webhook pass\<close>

text \<open>
  Claim C6 says that the webhook pass adds the webhook folder and one request node for
  every webhook verb that is not deprecated, and nothing else.  The callback over a webhook
  item never tests its key against \<^verbatim>\<open>ALLOWED_HTTP_METHODS\<close>, as the callbacks of both
  strategies do for a path item, although the function is documented to add a request
  \<^verbatim>\<open>for each webhook method\<close>: every key of the item is taken for a method.  For the
  webhook \<open>orderShipped\<close> with the keys \<^verbatim>\<open>summary\<close> and \<^verbatim>\<open>post\<close>, of which only \<^verbatim>\<open>post\<close> is an
  HTTP method, the entry point returns a tree with two webhook requests, one of them for
  \<^verbatim>\<open>summary\<close>.  On webhook items whose keys are all HTTP methods the pass adds exactly the
  folder and one request for each operation that passes the deprecation filter (lemma
  \<open>webhook_pass_on_http_methods\<close>).
\<close>

theorem webhook_key_that_is_no_verb_gets_a_request:
  "webhooks summary_hook_spec = [(''orderShipped'', [(''summary'', plain_op), (''post'', plain_op)])] \<and>
   filter (\<lambda>k. k \<in> set http_methods) [''summary'', ''post''] = [''post''] \<and>
   includeWebhooks paths_options \<and>
   generateSkeletonTreeFromOpenAPI summary_hook_spec paths_options =
     Inr \<lparr>nodes =
            [(''root:collection'', Some root_label),
             (''path:folder:user'', Some (path_folder_label ''user'' ''user'')),
             (''path:request:user:get'', Some (path_request_label ''/user'' ''get'' ''user'')),
             (''path~webhook:folder'', Some webhook_folder_label),
             (''path~webhook:orderShipped:summary'',
              Some (webhook_request_label ''orderShipped'' ''summary'')),
             (''path~webhook:orderShipped:post'',
              Some (webhook_request_label ''orderShipped'' ''post''))],
          edges =
            [(''root:collection'', ''path:folder:user''),
             (''path:folder:user'', ''path:request:user:get''),
             (''root:collection'', ''path~webhook:folder''),
             (''path~webhook:folder'', ''path~webhook:orderShipped:summary''),
             (''path~webhook:folder'', ''path~webhook:orderShipped:post'')]\<rparr>"
  by code_simp

subsection \<open>C7: a tag declared twice\<close>

text \<open>
  Claim C7 says that, when the declared tag list holds two descriptors with the same name
  and different descriptions, the map from tag name to description, and with it the
  \<^verbatim>\<open>description\<close> in the meta of the folder created for the tag, uses the description of
  the first occurrence.  The reduction assigns \<^verbatim>\<open>acc[data.name] = data.description\<close> for
  every descriptor in turn, so a later descriptor overwrites an earlier one: with
  descriptors \<open>Pet\<close>/\<open>first\<close>, \<open>Store\<close>, \<open>Pet\<close>/\<open>second\<close> the folder of \<open>Pet\<close> is
  described as \<open>second\<close>.
\<close>

theorem first_declared_description_is_overwritten:
  "description (hd (filter (\<lambda>x. name x = ''Pet'') (tags duplicate_tag_spec))) = Str ''first'' \<and>
   obj_get (tagDescMap (tags duplicate_tag_spec)) ''Pet'' = Str ''second'' \<and>
   node (generateTreeFromTags duplicate_tag_spec False) (tag_folder_id ''Pet'') =
     Some (tag_folder_label '''' ''Pet'' (Str ''second'')) \<and>
   node (generateTreeFromTags duplicate_tag_spec False) (tag_folder_id ''Pet'') \<noteq>
     Some (tag_folder_label '''' ''Pet'' (Str ''first''))"
  by code_simp

text \<open>
  Claim C7 as amended.  For every declared tag whose name is not \<^verbatim>\<open>__proto__\<close> (a key that
  assignment cannot create on a plain object), the map yields the description of the last
  descriptor with that name in declaration order, and the folder created for the tag by
  the loop over the map carries that description.  In the finished tree the folder still
  has this record unless a request whose identifier is the same string has been written
  over it.
\<close>

theorem declared_tag_description_last_wins:
  assumes "d \<in> set (tags spec)" and "name d \<noteq> ''__proto__''"
  shows "obj_get (tagDescMap (tags spec)) (name d) = last_description (tags spec) (name d) \<and>
         node (declared_tag_folders (tagDescMap (tags spec))) (tag_folder_id (name d)) =
           Some (tag_folder_label '''' (name d) (last_description (tags spec) (name d))) \<and>
         kept_or_request (tag_folder_id (name d))
           (tag_folder_label '''' (name d) (last_description (tags spec) (name d)))
           (generateTreeFromTags spec inc)"
proof -
  have a: "obj_get (tagDescMap (tags spec)) (name d) = last_description (tags spec) (name d)"
    using assms by (rule obj_get_tagDescMap)
  have b: "node (declared_tag_folders (tagDescMap (tags spec))) (tag_folder_id (name d)) =
           Some (tag_folder_label '''' (name d) (last_description (tags spec) (name d)))"
    using node_declared_tag_folders [OF tagDescMap_key [OF assms]] a by simp
  show ?thesis
    using a b kept_or_request_generateTreeFromTags [OF b] by simp
qed

theorem declared_tag_description_last_wins_witness:
  "\<lparr>name = ''Pet'', description = Str ''first''\<rparr> \<in> set (tags duplicate_tag_spec) \<and>
   name \<lparr>name = ''Pet'', description = Str ''first''\<rparr> \<noteq> ''__proto__'' \<and>
   last_description (tags duplicate_tag_spec) ''Pet'' = Str ''second'' \<and>
   obj_get (tagDescMap (tags duplicate_tag_spec)) ''Pet'' = Str ''second'' \<and>
   node (declared_tag_folders (tagDescMap (tags duplicate_tag_spec))) (tag_folder_id ''Pet'') =
     Some (tag_folder_label '''' ''Pet'' (Str ''second'')) \<and>
   kept_or_request (tag_folder_id ''Pet'') (tag_folder_label '''' ''Pet'' (Str ''second''))
     (generateTreeFromTags duplicate_tag_spec False)"
proof -
  have m: "\<lparr>name = ''Pet'', description = Str ''first''\<rparr> \<in> set (tags duplicate_tag_spec)"
    by (simp add: duplicate_tag_spec_def)
  have n: "name \<lparr>name = ''Pet'', description = Str ''first''\<rparr> \<noteq> ''__proto__''"
    by simp
  have l: "last_description (tags duplicate_tag_spec) ''Pet'' = Str ''second''"
    by (simp add: last_description_def duplicate_tag_spec_def)
  show ?thesis
    using m n l declared_tag_description_last_wins [OF m n, of False] by simp
qed

subsection \<open>C8: how often a node or an edge is written\<close>




subsection \<open>C10: a path whose operations are all filtered out\<close>

text \<open>
  Claim C10.  In the path strategy, take a path all of whose entries are filtered out (the
  key is not allowed, or the operation is deprecated and deprecated operations are not
  included).  If the path has two or more segments, the walk still creates a folder for
  every segment but the last, each with the edge from its parent (the root for the first
  segment); nodes that existed keep their records; no folder for the complete path
  identifier and no request node is among the nodes created.  If the path has a single
  segment, nothing at all is created.  Run on a specification with that one path, the
  strategy returns the root followed by the chain of empty folders, or the root alone.
\<close>

theorem filtered_path_leaves_ancestor_folders:
  assumes "list_all (skipped inc) (methods_of ps cp)" and "hasNode g root_id"
  shows "(length (pathSplit cp) = 1 \<longrightarrow> path_step inc ps g cp = g) \<and>
         (2 \<le> length (pathSplit cp) \<longrightarrow>
            set (node_ids (path_step inc ps g cp)) =
              set (node_ids g) \<union> set (ancestor_folders (pathSplit cp)) \<and>
            set (edges (path_step inc ps g cp)) =
              set (edges g) \<union> set (ancestor_edges (pathSplit cp)) \<and>
            (\<forall>v. hasNode g v \<longrightarrow> node (path_step inc ps g cp) v = node g v) \<and>
            (\<forall>i<length (pathSplit cp) - 1. \<not> hasNode g (folder_at (pathSplit cp) i) \<longrightarrow>
               node (path_step inc ps g cp) (folder_at (pathSplit cp) i) =
                 Some (path_folder_label (pathSplit cp ! i)
                         (pathIdentifier_at (pathSplit cp) i))) \<and>
            path_folder_id (join ''/'' (pathSplit cp)) \<notin> set (ancestor_folders (pathSplit cp)) \<and>
            (\<forall>pid m. path_request_id pid m \<notin> set (ancestor_folders (pathSplit cp)))) \<and>
         (paths spec = [(cp, ms)] \<and> list_all (skipped inc) ms \<longrightarrow>
            generateTreeFromPathsV2 spec inc =
              (if 2 \<le> length (pathSplit cp)
               then \<lparr>nodes =
                       (root_id, Some root_label) #
                       map (\<lambda>i. (folder_at (pathSplit cp) i,
                                  Some (path_folder_label (pathSplit cp ! i)
                                          (pathIdentifier_at (pathSplit cp) i))))
                         [0..<length (pathSplit cp) - 1],
                     edges = ancestor_edges (pathSplit cp)\<rparr>
               else root_tree))"
proof -
  define segs where "segs = pathSplit cp"
  have one: "path_step inc ps g cp = g" if "length segs = 1"
    using that assms(1) by (simp add: path_step_single segs_def skipped_methods_loop)
  have walk: "path_step inc' ps' g' cp = foldl (inner_segment segs) g' [0..<length segs - 1]"
    if "2 \<le> length segs" "list_all (skipped inc') (methods_of ps' cp)" for inc' ps' g'
    using that by (simp add: path_step_walk segs_def skipped_methods_loop)
  have many: "set (node_ids (path_step inc ps g cp)) = set (node_ids g) \<union> set (ancestor_folders segs) \<and>
      set (edges (path_step inc ps g cp)) = set (edges g) \<union> set (ancestor_edges segs) \<and>
      (\<forall>v. hasNode g v \<longrightarrow> node (path_step inc ps g cp) v = node g v) \<and>
      (\<forall>i<length segs - 1. \<not> hasNode g (folder_at segs i) \<longrightarrow>
         node (path_step inc ps g cp) (folder_at segs i) =
           Some (path_folder_label (segs ! i) (pathIdentifier_at segs i)))"
    if "2 \<le> length segs"
  proof -
    have "length segs - 1 < length segs" using that by simp
    from inner_walk [OF assms(2) this] show ?thesis
      by (simp add: walk [OF that assms(1)] ancestor_folders_image ancestor_edges_image)
  qed
  have run: "generateTreeFromPathsV2 spec inc =
      (if 2 \<le> length segs
       then \<lparr>nodes = (root_id, Some root_label) #
               map (\<lambda>i. (folder_at segs i,
                          Some (path_folder_label (segs ! i) (pathIdentifier_at segs i))))
                 [0..<length segs - 1],
             edges = ancestor_edges segs\<rparr>
       else root_tree)"
    if p: "paths spec = [(cp, ms)]" and s: "list_all (skipped inc) ms"
  proof -
    have m: "methods_of (paths spec) cp = ms" by (simp add: p methods_of_def)
    have g: "generateTreeFromPathsV2 spec inc = path_step inc (paths spec) root_tree cp"
      by (simp add: generateTreeFromPathsV2_def p)
    show ?thesis
    proof (cases "2 \<le> length segs")
      case True
      have k: "length segs - 1 < length segs" using True by simp
      have c: "closed_edges root_tree"
        using well_formed_root_tree by (simp add: well_formed_def)
      have f: "\<forall>i<length segs - 1. \<not> hasNode root_tree (folder_at segs i)"
        by (simp add: folder_at_def)
      have r: "nodes root_tree = [(root_id, Some root_label)]" "edges root_tree = []"
        by (simp_all add: root_tree_def new_Graph_def setNode_def)
      from inner_walk_fresh [OF _ c k f] r True show ?thesis
        by (simp add: g walk [OF True] m s ancestor_edges_def)
    next
      case False
      show ?thesis
      proof (cases "length segs = 1")
        case True
        then show ?thesis
          using False by (simp add: g path_step_single segs_def [symmetric] m s
              skipped_methods_loop)
      next
        case False
        with \<open>\<not> 2 \<le> length segs\<close> have "length segs = 0" by arith
        then have "segs = []" by simp
        then show ?thesis
          by (simp add: g path_step_empty segs_def)
      qed
    qed
  qed
  show ?thesis
    unfolding segs_def [symmetric]
    using one many run last_folder_not_ancestor [of segs] request_not_ancestor [of _ _ segs]
    by blast
qed

theorem filtered_path_leaves_ancestor_folders_witness:
  "list_all (skipped False) (methods_of (paths filtered_spec) ''/user/{id}/pets'') \<and>
   hasNode root_tree root_id \<and>
   2 \<le> length (pathSplit ''/user/{id}/pets'') \<and>
   generateTreeFromPathsV2 filtered_spec False =
     \<lparr>nodes =
        [(''root:collection'', Some root_label),
         (''path:folder:user'', Some (path_folder_label ''user'' ''user'')),
         (''path:folder:user/{id}'', Some (path_folder_label ''{id}'' ''user/{id}''))],
      edges =
        [(''root:collection'', ''path:folder:user''),
         (''path:folder:user'', ''path:folder:user/{id}'')]\<rparr> \<and>
   length (pathSplit ''/user'') = 1 \<and>
   path_step False [(''/user'', [(''get'', deprecated_op)])] root_tree ''/user'' = root_tree"
proof -
  let ?ms = "[(''parameters'', plain_op), (''get'', deprecated_op)]"
  have s: "pathSplit ''/user/{id}/pets'' = [''user'', ''{id}'', ''pets'']"
    by code_simp
  have p: "paths filtered_spec = [(''/user/{id}/pets'', ?ms)]"
    by (simp add: filtered_spec_def)
  have f: "list_all (skipped False) ?ms"
    by code_simp
  have f': "list_all (skipped False) (methods_of (paths filtered_spec) ''/user/{id}/pets'')"
    using f by (simp add: p methods_of_def)
  have r: "hasNode root_tree root_id"
    by simp
  have s1: "length (pathSplit ''/user'') = 1"
    by code_simp
  have f1: "list_all (skipped False)
              (methods_of [(''/user'', [(''get'', deprecated_op)])] ''/user'')"
    by code_simp
  have u: "[0..<2] = [0, Suc 0]"
    by (simp add: upt_rec)
  have a: "generateTreeFromPathsV2 filtered_spec False =
     \<lparr>nodes =
        [(''root:collection'', Some root_label),
         (''path:folder:user'', Some (path_folder_label ''user'' ''user'')),
         (''path:folder:user/{id}'', Some (path_folder_label ''{id}'' ''user/{id}''))],
      edges =
        [(''root:collection'', ''path:folder:user''),
         (''path:folder:user'', ''path:folder:user/{id}'')]\<rparr>"
    using p f
      filtered_path_leaves_ancestor_folders [OF f' r, where spec = filtered_spec and ms = ?ms]
    by (simp add: s u folder_at_def pathIdentifier_at_def parent_at_def ancestor_edges_def
        path_folder_id_def root_id_def)
  have b: "path_step False [(''/user'', [(''get'', deprecated_op)])] root_tree ''/user'' =
           root_tree"
    using s1 filtered_path_leaves_ancestor_folders [OF f1 r] by blast
  show ?thesis
    using f' r s s1 a b by simp
qed

end
